theory Spec2Isabelle
  imports Main "HOL-Library.AList"
begin

section \<open>Values and messages\<close>

text \<open>
  The controller side of threads-es, \<^verbatim>\<open>src/controller/thread/EsThread.ts\<close>, as a
  shallow embedding. Correlation ids are strings. A transferable object (an
  \<^verbatim>\<open>ArrayBuffer\<close>, a \<^verbatim>\<open>MessagePort\<close>) is opaque and known by its identity.
\<close>

type_synonym TaskUID = string

datatype Transferable = Transferable nat

text \<open>
  Modelled from the spec: the transfer descriptor of \<^verbatim>\<open>shared/TransferDescriptor.js\<close>
  is not among the sources. A transfer-marked value is a descriptor object that carries
  the value to send and its accompanying transfer list; every other value is plain.
\<close>

datatype jsval =
    JSUndefined
  | JSNumber int
  | JSString string
  | JSObject nat
  | TransferDescriptor jsval "Transferable list"

fun isTransferDescriptor :: "jsval \<Rightarrow> bool" where
  "isTransferDescriptor (TransferDescriptor v ts) = True"
| "isTransferDescriptor _ = False"

fun transferables :: "jsval \<Rightarrow> Transferable list" where
  "transferables (TransferDescriptor v ts) = ts"
| "transferables _ = []"

datatype Error = Error string

text \<open>Messages of the controller, and the record \<^verbatim>\<open>postMessage\<close> is called with.\<close>

datatype ControllerMessage =
    Run TaskUID string "jsval list"
  | Terminate "bool option"

text \<open>
  Messages of the worker. \<open>UnknownMessage\<close> stands for a record whose type tag
  is none of the four the controller knows.
\<close>

datatype WorkerMessage =
    Init "string list"
  | TaskResult TaskUID jsval
  | TaskError TaskUID string
  | UnchaughtError string
  | UnknownMessage string

text \<open>
  Modelled from the spec: the tags of \<^verbatim>\<open>WorkerMessageType\<close> (declared in
  \<^verbatim>\<open>shared/Messages.js\<close>, not among the sources), as section 6 of the specification
  lists them. They only appear inside the text of fault reports.
\<close>

fun message_type :: "WorkerMessage \<Rightarrow> string" where
  "message_type (Init ns) = ''init''"
| "message_type (TaskResult u r) = ''taskResult''"
| "message_type (TaskError u m) = ''taskError''"
| "message_type (UnchaughtError m) = ''uncaughtError''"
| "message_type (UnknownMessage t) = t"

section \<open>Argument packaging\<close>

text \<open>
  \<^verbatim>\<open>prepareArguments\<close> is a loop over the raw arguments that pushes onto two arrays.
  The loop is a recursion that carries both arrays.
\<close>

record prepared =
  args :: "jsval list"
  transfer_list :: "Transferable list"

fun prepareArguments_loop :: "jsval list \<Rightarrow> jsval list \<Rightarrow> Transferable list \<Rightarrow> prepared" where
  "prepareArguments_loop [] as ts = \<lparr>args = as, transfer_list = ts\<rparr>"
| "prepareArguments_loop (arg # rawArgs) as ts =
     (if isTransferDescriptor arg
      then prepareArguments_loop rawArgs (as @ [arg]) (ts @ transferables arg)
      else prepareArguments_loop rawArgs (as @ [arg]) ts)"

definition prepareArguments :: "jsval list \<Rightarrow> prepared" where
  "prepareArguments rawArgs = prepareArguments_loop rawArgs [] []"

section \<open>Task handles and promises\<close>

datatype promise_state = Pending | Fulfilled jsval | Rejected Error

definition is_settled :: "promise_state \<Rightarrow> bool" where
  "is_settled p = (p \<noteq> Pending)"

fun is_fulfilled :: "promise_state \<Rightarrow> bool" where
  "is_fulfilled (Fulfilled v) = True"
| "is_fulfilled _ = False"

fun is_rejected :: "promise_state \<Rightarrow> bool" where
  "is_rejected (Rejected e) = True"
| "is_rejected _ = False"

text \<open>
  Modelled from the spec: \<^verbatim>\<open>EsTaskPromise\<close> (\<^verbatim>\<open>EsTask.js\<close>, not among the sources) is
  a future-shaped value exposing its own correlation id plus external resolve and reject
  entry points. A task handle is an object: the thread keeps every handle it has
  allocated in \<open>promises\<close>, and the address of a handle is its index there. The
  correlation id is minted by the external unique-id generator when the handle is
  constructed; here it is an argument of the invocation.
\<close>

record EsTaskPromise =
  taskUID :: TaskUID
  pstate :: promise_state

section \<open>The worker and its channel\<close>

datatype worker_class = Worker | SharedWorker | ServiceWorker

datatype listener = InitMessageHandler | TaskResultDispatchListener

text \<open>
  What the controller can do to an \<^verbatim>\<open>AbstractWorker\<close> and to the interface it talks
  through (the worker itself, or the port of a shared worker): the listeners attached
  for \<^verbatim>\<open>"message"\<close>, the calls of \<^verbatim>\<open>postMessage\<close> in order, and whether
  \<^verbatim>\<open>port.start()\<close>, \<^verbatim>\<open>worker.terminate()\<close> and \<^verbatim>\<open>port.close()\<close> have been called.
\<close>

record AbstractWorker =
  worker_class :: worker_class
  listeners :: "listener list"
  posted :: "(ControllerMessage \<times> Transferable list) list"
  port_started :: bool
  terminated :: bool
  port_closed :: bool

definition channel_closed :: "AbstractWorker \<Rightarrow> bool" where
  "channel_closed w = (terminated w \<or> port_closed w)"

section \<open>The thread\<close>

text \<open>The closure \<^verbatim>\<open>createProxyFunction\<close> returns; it captures the method name.\<close>

datatype ProxyFunction = ProxyFunction string

text \<open>
  A call of \<^verbatim>\<open>settled()\<close>, \<^verbatim>\<open>resolved()\<close> or \<^verbatim>\<open>terminate(flag)\<close> that has been
  made. \<open>snapshot\<close> holds the handles \<^verbatim>\<open>this.tasks.values()\<close> yielded when the call
  was made, \<open>remaining\<close> those of them the aggregate promise still waits for,
  \<open>awaited\<close> the state of the aggregate (\<^verbatim>\<open>Promise.allSettled\<close> or
  \<^verbatim>\<open>Promise.all\<close>), and \<open>resumed\<close> whether the part of \<^verbatim>\<open>terminate\<close> after its
  \<^verbatim>\<open>await\<close> has run.
\<close>

datatype call_kind = SettledCall | ResolvedCall | TerminateCall "bool option"

record async_call =
  call_kind :: call_kind
  snapshot :: "nat list"
  remaining :: "nat list"
  awaited :: promise_state
  resumed :: bool

record EsThread =
  timeout :: nat
  worker :: AbstractWorker
  tasks :: "(TaskUID \<times> nat) list"
  methods :: "(string \<times> ProxyFunction) list"
  promises :: "EsTaskPromise list"
  error_events :: "Error list"
  calls :: "async_call list"

text \<open>
  The fields of the class that an operation reads or writes. \<^verbatim>\<open>options\<close> has the one
  field \<open>timeout\<close>; \<^verbatim>\<open>interface\<close> is the worker itself or its port, and \<open>worker\<close>
  stands for both; the random \<^verbatim>\<open>threadUID\<close> is read by no operation and is left out.
  \<open>promises\<close>, \<open>error_events\<close> and \<open>calls\<close> hold what the thread has created
  or dispatched: its task handles, the \<^verbatim>\<open>ErrorEvent\<close>s dispatched on it, and the calls of
  its draining methods.

  \<open>tasks\<close> is the JavaScript \<^verbatim>\<open>Map\<close> from correlation id to task handle, in insertion
  order: \<^verbatim>\<open>set\<close> is \<open>AList.update\<close> (a present key keeps its place), \<^verbatim>\<open>delete\<close> is
  \<open>AList.delete\<close>, \<^verbatim>\<open>get\<close> is \<open>map_of\<close>, \<^verbatim>\<open>size\<close> is the length and
  \<^verbatim>\<open>values()\<close> are the second components in order.
\<close>

definition numQueuedTasks :: "EsThread \<Rightarrow> nat" where
  "numQueuedTasks th = length (tasks th)"

definition postMessage :: "ControllerMessage \<Rightarrow> Transferable list \<Rightarrow> EsThread \<Rightarrow> EsThread" where
  "postMessage m ts th = th\<lparr>worker := (worker th)\<lparr>posted := posted (worker th) @ [(m, ts)]\<rparr>\<rparr>"

definition addEventListener :: "listener \<Rightarrow> EsThread \<Rightarrow> EsThread" where
  "addEventListener l th =
     (if l \<in> set (listeners (worker th)) then th
      else th\<lparr>worker := (worker th)\<lparr>listeners := listeners (worker th) @ [l]\<rparr>\<rparr>)"

definition removeEventListener :: "listener \<Rightarrow> EsThread \<Rightarrow> EsThread" where
  "removeEventListener l th =
     th\<lparr>worker := (worker th)\<lparr>listeners := removeAll l (listeners (worker th))\<rparr>\<rparr>"

text \<open>
  The unit-appropriate close both \<^verbatim>\<open>terminate\<close> and the handler of a failed handshake
  perform: \<^verbatim>\<open>worker.terminate()\<close> for a dedicated worker, \<^verbatim>\<open>worker.port.close()\<close> for
  a shared one. The constructor refuses a service worker, so no thread has one; there
  the assertion of the source fails and nothing is closed.
\<close>

definition close_channel :: "EsThread \<Rightarrow> EsThread" where
  "close_channel th =
     (case worker_class (worker th) of
        Worker \<Rightarrow> th\<lparr>worker := (worker th)\<lparr>terminated := True\<rparr>\<rparr>
      | SharedWorker \<Rightarrow> th\<lparr>worker := (worker th)\<lparr>port_closed := True\<rparr>\<rparr>
      | ServiceWorker \<Rightarrow> th)"

definition dispatchErrorEvent :: "Error \<Rightarrow> EsThread \<Rightarrow> EsThread" where
  "dispatchErrorEvent e th = th\<lparr>error_events := error_events th @ [e]\<rparr>"

subsection \<open>Settling a task handle\<close>

text \<open>
  The reactions of the platform's aggregates. \<^verbatim>\<open>Promise.allSettled\<close> is fulfilled once
  none of its inputs is pending. \<^verbatim>\<open>Promise.all\<close> is fulfilled once every input is
  fulfilled and rejected with the reason of the first input that rejects.
\<close>

definition notify_fulfilled :: "nat \<Rightarrow> async_call \<Rightarrow> async_call" where
  "notify_fulfilled a c =
     (if a \<notin> set (remaining c) then c
      else c\<lparr>remaining := removeAll a (remaining c),
             awaited := (if awaited c = Pending \<and> removeAll a (remaining c) = []
                         then Fulfilled JSUndefined else awaited c)\<rparr>)"

definition notify_rejected :: "nat \<Rightarrow> Error \<Rightarrow> async_call \<Rightarrow> async_call" where
  "notify_rejected a e c =
     (if a \<notin> set (remaining c) then c
      else if call_kind c = ResolvedCall
      then c\<lparr>remaining := removeAll a (remaining c),
             awaited := (if awaited c = Pending then Rejected e else awaited c)\<rparr>
      else notify_fulfilled a c)"

text \<open>Resolving or rejecting a handle that is no longer pending does nothing.\<close>

definition task_resolve :: "nat \<Rightarrow> jsval \<Rightarrow> EsThread \<Rightarrow> EsThread" where
  "task_resolve a v th =
     (if a < length (promises th) \<and> pstate (promises th ! a) = Pending
      then th\<lparr>promises := (promises th)[a := (promises th ! a)\<lparr>pstate := Fulfilled v\<rparr>],
              calls := map (notify_fulfilled a) (calls th)\<rparr>
      else th)"

definition task_reject :: "nat \<Rightarrow> Error \<Rightarrow> EsThread \<Rightarrow> EsThread" where
  "task_reject a e th =
     (if a < length (promises th) \<and> pstate (promises th ! a) = Pending
      then th\<lparr>promises := (promises th)[a := (promises th ! a)\<lparr>pstate := Rejected e\<rparr>],
              calls := map (notify_rejected a e) (calls th)\<rparr>
      else th)"

subsection \<open>Invocation\<close>

text \<open>
  The body of the closure \<^verbatim>\<open>createProxyFunction(method)\<close> returns, called with
  \<open>rawArgs\<close>; \<open>uid\<close> is the id the new handle was given. It returns the handle.
\<close>

definition createProxyFunction ::
  "string \<Rightarrow> TaskUID \<Rightarrow> jsval list \<Rightarrow> EsThread \<Rightarrow> nat \<times> EsThread" where
  "createProxyFunction method uid rawArgs th =
     (let taskPromise = length (promises th);
          th1 = th\<lparr>promises := promises th @ [\<lparr>taskUID = uid, pstate = Pending\<rparr>]\<rparr>;
          p = prepareArguments rawArgs;
          runMessage = Run (taskUID (promises th1 ! taskPromise)) method (args p);
          th2 = th1\<lparr>tasks := AList.update (taskUID (promises th1 ! taskPromise)) taskPromise (tasks th1)\<rparr>;
          th3 = postMessage runMessage (transfer_list p) th2
      in (taskPromise, th3))"

fun createMethodsProxy :: "string list \<Rightarrow> EsThread \<Rightarrow> EsThread" where
  "createMethodsProxy [] th = th"
| "createMethodsProxy (methodName # methodNames) th =
     createMethodsProxy methodNames
       (th\<lparr>methods := AList.update methodName (ProxyFunction methodName) (methods th)\<rparr>)"

subsection \<open>Dispatch of results\<close>

text \<open>
  The listener installed after the handshake. The platform delivers a \<^verbatim>\<open>MessageEvent\<close>
  to a \<^verbatim>\<open>"message"\<close> listener, so \<^verbatim>\<open>assertMessageEvent\<close> passes and the argument is
  the event's data. Every \<^verbatim>\<open>throw\<close> of the body is caught by its own handler, which
  dispatches an \<^verbatim>\<open>ErrorEvent\<close> on the thread.
\<close>

definition tasks_delete :: "TaskUID \<Rightarrow> EsThread \<Rightarrow> EsThread" where
  "tasks_delete uid th = th\<lparr>tasks := AList.delete uid (tasks th)\<rparr>"

fun taskResultDispatch :: "WorkerMessage \<Rightarrow> EsThread \<Rightarrow> EsThread" where
  "taskResultDispatch (TaskResult uid result) th =
     (case map_of (tasks th) uid of
        None \<Rightarrow>
          dispatchErrorEvent (Error (''Recived result for invalid task with UID '' @ uid)) th
      | Some task \<Rightarrow>
          task_resolve task result (tasks_delete (taskUID (promises th ! task)) th))"
| "taskResultDispatch (TaskError uid errorMessage) th =
     (case map_of (tasks th) uid of
        None \<Rightarrow>
          dispatchErrorEvent (Error (''Recived error for invalid task with UID '' @ uid)) th
      | Some task \<Rightarrow>
          task_reject task (Error errorMessage)
            (tasks_delete (taskUID (promises th ! task)) th))"
| "taskResultDispatch (UnchaughtError errorMessage) th =
     dispatchErrorEvent (Error (''Uncaught error in worker: '' @ errorMessage)) th"
| "taskResultDispatch msg th =
     dispatchErrorEvent
       (Error (''Recieved unexpected WorkerMessage of type: '' @ message_type msg)) th"


subsection \<open>Draining and termination\<close>

text \<open>
  The aggregate over the handles \<^verbatim>\<open>this.tasks.values()\<close> yields at the call. An input
  that is already settled counts at once, in iteration order.
\<close>

definition pending_of :: "EsThread \<Rightarrow> nat list \<Rightarrow> nat list" where
  "pending_of th as = filter (\<lambda>a. pstate (promises th ! a) = Pending) as"

definition allSettled :: "EsThread \<Rightarrow> nat list \<Rightarrow> promise_state" where
  "allSettled th as = (if pending_of th as = [] then Fulfilled JSUndefined else Pending)"

definition all_promises :: "EsThread \<Rightarrow> nat list \<Rightarrow> promise_state" where
  "all_promises th as =
     (case find (\<lambda>a. is_rejected (pstate (promises th ! a))) as of
        Some a \<Rightarrow> pstate (promises th ! a)
      | None \<Rightarrow> if pending_of th as = [] then Fulfilled JSUndefined else Pending)"

definition new_call :: "call_kind \<Rightarrow> EsThread \<Rightarrow> EsThread" where
  "new_call k th =
     (let vs = map snd (tasks th) in
      th\<lparr>calls := calls th @
         [\<lparr>call_kind = k, snapshot = vs, remaining = pending_of th vs,
           awaited = (if k = ResolvedCall then all_promises th vs else allSettled th vs),
           resumed = False\<rparr>]\<rparr>)"

definition settled :: "EsThread \<Rightarrow> EsThread" where
  "settled th = new_call SettledCall th"

definition resolved :: "EsThread \<Rightarrow> EsThread" where
  "resolved th = new_call ResolvedCall th"

text \<open>
  \<^verbatim>\<open>terminate\<close> runs in two turns: up to its \<^verbatim>\<open>await this.settled()\<close> when it is
  called, and from there to its end once the awaited promise is fulfilled.
  \<open>terminate_resume k\<close> is the second turn of the call recorded at index \<open>k\<close>; it
  does nothing while the awaited promise is pending, and nothing a second time.
\<close>

definition terminate :: "bool option \<Rightarrow> EsThread \<Rightarrow> EsThread" where
  "terminate forceTerminateShared th = new_call (TerminateCall forceTerminateShared) th"

definition terminate_resume :: "nat \<Rightarrow> EsThread \<Rightarrow> EsThread" where
  "terminate_resume k th =
     (if k < length (calls th) then
        (case call_kind (calls th ! k) of
           TerminateCall forceTerminateShared \<Rightarrow>
             if is_fulfilled (awaited (calls th ! k)) \<and> \<not> resumed (calls th ! k) then
               (let th1 = postMessage (Terminate forceTerminateShared) [] th;
                    th2 = removeEventListener TaskResultDispatchListener th1;
                    th3 = close_channel th2
                in th3\<lparr>calls := (calls th3)[k := (calls th3 ! k)\<lparr>resumed := True\<rparr>]\<rparr>)
             else th
         | _ \<Rightarrow> th)
      else th)"

section \<open>Spawn and the handshake\<close>

fun digit_char :: "nat \<Rightarrow> char" where
  "digit_char n = char_of (48 + n)"

function decimal :: "nat \<Rightarrow> string" where
  "decimal n = (if n < 10 then [digit_char n] else decimal (n div 10) @ [digit_char (n mod 10)])"
  by pat_completeness auto
termination
  by (relation "measure id") auto

declare decimal.simps [simp del]

datatype spawn_result = SpawnRejected Error AbstractWorker | SpawnResolved EsThread

text \<open>
  The constructor: the options are the defaults overridden by the given ones, a service
  worker is refused, and the port of a shared worker is started.
\<close>

definition DefaultEsThreadOptions_timeout :: nat where
  "DefaultEsThreadOptions_timeout = 10000"

definition EsThread_constructor :: "AbstractWorker \<Rightarrow> nat option \<Rightarrow> Error + EsThread" where
  "EsThread_constructor w threadOptions =
     (if worker_class w = ServiceWorker
      then Inl (Error ''ServiceWorker currently not supported.'')
      else Inr \<lparr>timeout = (case threadOptions of None \<Rightarrow> DefaultEsThreadOptions_timeout | Some t \<Rightarrow> t),
                worker = (if worker_class w = Worker then w else w\<lparr>port_started := True\<rparr>),
                tasks = [], methods = [], promises = [], error_events = [], calls = []\<rparr>)"

text \<open>
  The handler of the handshake settles the promise of the handshake on the first message
  and detaches itself.
\<close>

fun initMessageHandler :: "WorkerMessage \<Rightarrow> EsThread \<Rightarrow> EsThread \<times> (Error + string list)" where
  "initMessageHandler (Init methodNames) th =
     (removeEventListener InitMessageHandler th, Inr methodNames)"
| "initMessageHandler (UnchaughtError errorMessage) th =
     (removeEventListener InitMessageHandler th, Inl (Error errorMessage))"
| "initMessageHandler msg th =
     (removeEventListener InitMessageHandler th,
      Inl (Error (''Recieved unexpected WorkerMessage of type: '' @ message_type msg)))"

text \<open>
  Modelled from the spec: \<^verbatim>\<open>withTimeout\<close> (\<^verbatim>\<open>shared/Utils.js\<close>, not among the sources)
  is the generic wait with a timeout; it fails with the given text when the bound
  elapses before the promise settles. \<open>msgs\<close> are the messages the channel delivers
  before the timeout elapses, in order.
\<close>

definition withTimeout_init ::
  "WorkerMessage list \<Rightarrow> EsThread \<Rightarrow> EsThread \<times> (Error + string list)" where
  "withTimeout_init msgs th =
     (case msgs of
        [] \<Rightarrow> (th, Inl (Error (''Timeout: Did not receive an init message from worker after ''
                                @ decimal (timeout th) @ ''ms'')))
      | msg # _ \<Rightarrow> initMessageHandler msg th)"

definition initThread :: "WorkerMessage list \<Rightarrow> EsThread \<Rightarrow> spawn_result" where
  "initThread msgs th =
     (case withTimeout_init msgs (addEventListener InitMessageHandler th) of
        (th1, Inl e) \<Rightarrow> SpawnRejected e (worker (close_channel th1))
      | (th1, Inr methodNames) \<Rightarrow>
          SpawnResolved
            (addEventListener TaskResultDispatchListener (createMethodsProxy methodNames th1)))"

definition Spawn :: "AbstractWorker \<Rightarrow> nat option \<Rightarrow> WorkerMessage list \<Rightarrow> spawn_result" where
  "Spawn w threadOptions msgs =
     (case EsThread_constructor w threadOptions of
        Inl e \<Rightarrow> SpawnRejected e w
      | Inr th \<Rightarrow> initThread msgs th)"

section \<open>The life of a thread\<close>

text \<open>
  What can happen to a spawned thread, one uninterrupted turn of the controller each: the
  caller invokes \<^verbatim>\<open>thread.methods[name](...rawArgs)\<close> (a name with no proxy is a
  \<^verbatim>\<open>TypeError\<close> at the caller and leaves the thread as it is), the channel delivers a
  message to the listeners attached, the caller calls \<^verbatim>\<open>settled()\<close>,
  \<^verbatim>\<open>resolved()\<close> or \<^verbatim>\<open>terminate(flag)\<close>, or a call of \<^verbatim>\<open>terminate\<close> continues
  after its \<^verbatim>\<open>await\<close>.
\<close>

datatype action =
    Invoke string TaskUID "jsval list"
  | Deliver WorkerMessage
  | CallSettled
  | CallResolved
  | CallTerminate "bool option"
  | ResumeTerminate nat

fun step :: "EsThread \<Rightarrow> action \<Rightarrow> EsThread" where
  "step th (Invoke name uid rawArgs) =
     (case map_of (methods th) name of
        None \<Rightarrow> th
      | Some (ProxyFunction method) \<Rightarrow> snd (createProxyFunction method uid rawArgs th))"
| "step th (Deliver msg) =
     (if TaskResultDispatchListener \<in> set (listeners (worker th))
      then taskResultDispatch msg th else th)"
| "step th CallSettled = settled th"
| "step th CallResolved = resolved th"
| "step th (CallTerminate forceTerminateShared) = terminate forceTerminateShared th"
| "step th (ResumeTerminate k) = terminate_resume k th"

definition run :: "EsThread \<Rightarrow> action list \<Rightarrow> EsThread" where
  "run th acts = foldl step th acts"

section \<open>Reachable states and their invariant\<close>

text \<open>
  A worker as the caller hands it to \<^verbatim>\<open>Spawn\<close>: just constructed
  (\<^verbatim>\<open>new Worker(url)\<close>, \<^verbatim>\<open>new SharedWorker(url)\<close>), with nothing attached, posted or
  closed.
\<close>

definition new_worker :: "worker_class \<Rightarrow> AbstractWorker" where
  "new_worker cls =
     \<lparr>worker_class = cls, listeners = [], posted = [], port_started = False,
      terminated = False, port_closed = False\<rparr>"

text \<open>
  The thread \<^verbatim>\<open>Spawn\<close> returned for a new worker of class \<open>cls\<close>, after the turns
  \<open>acts\<close>; \<open>None\<close> when \<^verbatim>\<open>Spawn\<close> rejected.
\<close>

definition thread_after ::
  "worker_class \<Rightarrow> nat option \<Rightarrow> WorkerMessage list \<Rightarrow> action list \<Rightarrow> EsThread option" where
  "thread_after cls threadOptions msgs acts =
     (case Spawn (new_worker cls) threadOptions msgs of
        SpawnResolved th \<Rightarrow> Some (run th acts)
      | SpawnRejected e w' \<Rightarrow> None)"

text \<open>
  The invariant of a spawned thread. Every entry of the pending mapping is filed under
  the id of its own handle, and that handle is pending. Every recorded call waits for
  exactly the handles of its snapshot that are still pending, and the state of its
  aggregate is the one the platform gives it. While no call of \<^verbatim>\<open>terminate\<close> has
  continued past its \<^verbatim>\<open>await\<close>, the channel is open, the result listener is attached
  and only \<^verbatim>\<open>Run\<close> messages have been posted.
\<close>

definition tasks_ok :: "EsThread \<Rightarrow> bool" where
  "tasks_ok th =
     (distinct (map fst (tasks th)) \<and>
      (\<forall>k a. map_of (tasks th) k = Some a \<longrightarrow>
         a < length (promises th) \<and> taskUID (promises th ! a) = k \<and>
         pstate (promises th ! a) = Pending))"

definition call_ok :: "EsThread \<Rightarrow> async_call \<Rightarrow> bool" where
  "call_ok th c =
     ((\<forall>a \<in> set (snapshot c). a < length (promises th)) \<and>
      set (remaining c) = {a \<in> set (snapshot c). pstate (promises th ! a) = Pending} \<and>
      (call_kind c \<noteq> ResolvedCall \<longrightarrow>
         awaited c = (if remaining c = [] then Fulfilled JSUndefined else Pending)) \<and>
      (call_kind c = ResolvedCall \<longrightarrow>
         (case awaited c of
            Pending \<Rightarrow> remaining c \<noteq> [] \<and>
               (\<forall>a \<in> set (snapshot c). \<not> is_rejected (pstate (promises th ! a)))
          | Fulfilled v \<Rightarrow> v = JSUndefined \<and>
               (\<forall>a \<in> set (snapshot c). is_fulfilled (pstate (promises th ! a)))
          | Rejected e \<Rightarrow> (\<exists>a \<in> set (snapshot c). pstate (promises th ! a) = Rejected e))) \<and>
      (resumed c \<longrightarrow> (\<exists>f. call_kind c = TerminateCall f) \<and> is_fulfilled (awaited c)))"

definition is_Run :: "ControllerMessage \<Rightarrow> bool" where
  "is_Run m = (case m of Run u n as \<Rightarrow> True | Terminate f \<Rightarrow> False)"

definition channel_ok :: "EsThread \<Rightarrow> bool" where
  "channel_ok th =
     (worker_class (worker th) \<noteq> ServiceWorker \<and>
      ((\<exists>c \<in> set (calls th). resumed c) \<or>
       (\<not> channel_closed (worker th) \<and>
        TaskResultDispatchListener \<in> set (listeners (worker th)) \<and>
        (\<forall>p \<in> set (posted (worker th)). is_Run (fst p)))))"

definition thread_ok :: "EsThread \<Rightarrow> bool" where
  "thread_ok th = (tasks_ok th \<and> (\<forall>c \<in> set (calls th). call_ok th c) \<and> channel_ok th)"

definition terminate_effects :: "bool option \<Rightarrow> EsThread \<Rightarrow> EsThread" where
  "terminate_effects f th =
     close_channel (removeEventListener TaskResultDispatchListener (postMessage (Terminate f) [] th))"

text \<open>The thread a handshake that received \<open>Init ns\<close> first leaves behind.\<close>

definition handshake_done :: "AbstractWorker \<Rightarrow> nat option \<Rightarrow> string list \<Rightarrow> EsThread" where
  "handshake_done w topt ns =
     addEventListener TaskResultDispatchListener
       (createMethodsProxy ns
          (removeEventListener InitMessageHandler
             (addEventListener InitMessageHandler
                \<lparr>timeout = (case topt of None \<Rightarrow> DefaultEsThreadOptions_timeout | Some t \<Rightarrow> t),
                 worker = (if worker_class w = Worker then w else w\<lparr>port_started := True\<rparr>),
                 tasks = [], methods = [], promises = [], error_events = [], calls = []\<rparr>)))"

text \<open>How a recorded call may differ between an earlier state and a later one.\<close>

definition call_extends :: "async_call \<Rightarrow> async_call \<Rightarrow> bool" where
  "call_extends c c' =
     (call_kind c' = call_kind c \<and> snapshot c' = snapshot c \<and>
      (awaited c \<noteq> Pending \<longrightarrow> awaited c' = awaited c) \<and>
      (resumed c \<longrightarrow> resumed c'))"

text \<open>
  A run of a thread with two overlapping calls of \<^verbatim>\<open>terminate\<close>: a task is invoked,
  \<^verbatim>\<open>terminate()\<close> is called, a second task is invoked, \<^verbatim>\<open>terminate()\<close> is called
  again, the first result arrives and the first call continues.
\<close>

definition overlapping_terminate :: "action list" where
  "overlapping_terminate =
     [Invoke ''f'' ''u1'' [], CallTerminate None, Invoke ''f'' ''u2'' [], CallTerminate None,
      Deliver (TaskResult ''u1'' JSUndefined), ResumeTerminate 0]"

section \<open>The thread pool\<close>

text \<open>
  Modelled from the spec: \<^verbatim>\<open>EsThreadPool\<close> is not among the sources; only its tests are.
  Section 4.2 of the specification: the pool owns a fixed-size ordered collection of
  threads, index being spawn order. \<^verbatim>\<open>queue(task)\<close> selects, at call time, the thread
  with the fewest currently pending tasks, breaking ties by lowest spawn index, and
  invokes the callback with that thread synchronously. \<^verbatim>\<open>settled()\<close> is the
  conjunction (wait for all) of every member's \<^verbatim>\<open>settled()\<close>. \<^verbatim>\<open>terminate()\<close> calls
  every member's \<^verbatim>\<open>terminate()\<close>. The members are the threads of the model above.
\<close>

datatype pool_call_kind = PoolSettledCall | PoolTerminateCall

text \<open>
  A call of \<^verbatim>\<open>pool.settled()\<close> or \<^verbatim>\<open>pool.terminate()\<close> that has been made:
  \<open>member_calls\<close> holds, member by member, the index of the call the pool made on
  that member.
\<close>

record pool_call =
  pool_call_kind :: pool_call_kind
  member_calls :: "nat list"

record EsThreadPool =
  threads :: "EsThread list"
  pool_calls :: "pool_call list"

text \<open>
  Modelled from the spec: the selection of \<^verbatim>\<open>queue\<close>. The scan keeps the first thread
  unless a later one has strictly fewer pending tasks.
\<close>

fun least_loaded :: "EsThread list \<Rightarrow> nat option" where
  "least_loaded [] = None"
| "least_loaded (t # ts) =
     (case least_loaded ts of
        None \<Rightarrow> Some 0
      | Some j \<Rightarrow> if numQueuedTasks t \<le> numQueuedTasks (ts ! j) then Some 0 else Some (Suc j))"

text \<open>
  Modelled from the spec: \<^verbatim>\<open>queue(cb)\<close>. The callback is what it does to the thread it
  is handed, turn by turn, within the call. The result is the index of the thread
  selected and the pool afterwards; a pool without threads has nothing to select.
\<close>

definition queue :: "action list \<Rightarrow> EsThreadPool \<Rightarrow> nat option \<times> EsThreadPool" where
  "queue cb p =
     (case least_loaded (threads p) of
        None \<Rightarrow> (None, p)
      | Some i \<Rightarrow> (Some i, p\<lparr>threads := (threads p)[i := run (threads p ! i) cb]\<rparr>))"

fun queue_all :: "action list list \<Rightarrow> EsThreadPool \<Rightarrow> nat option list \<times> EsThreadPool" where
  "queue_all [] p = ([], p)"
| "queue_all (cb # cbs) p =
     (case queue cb p of (i, p1) \<Rightarrow> (case queue_all cbs p1 of (js, p2) \<Rightarrow> (i # js, p2)))"

text \<open>
  Modelled from the spec: \<^verbatim>\<open>pool.settled()\<close> calls \<^verbatim>\<open>settled()\<close> on every member and
  waits for all of the futures; \<^verbatim>\<open>pool.terminate()\<close> calls \<^verbatim>\<open>terminate()\<close> on every
  member, with no flag. The future of a member's \<^verbatim>\<open>terminate()\<close> is fulfilled when its
  second turn has run.
\<close>

definition pool_settled :: "EsThreadPool \<Rightarrow> EsThreadPool" where
  "pool_settled p =
     p\<lparr>threads := map settled (threads p),
       pool_calls := pool_calls p @
         [\<lparr>pool_call_kind = PoolSettledCall,
           member_calls = map (\<lambda>t. length (calls t)) (threads p)\<rparr>]\<rparr>"

definition pool_terminate :: "EsThreadPool \<Rightarrow> EsThreadPool" where
  "pool_terminate p =
     p\<lparr>threads := map (terminate None) (threads p),
       pool_calls := pool_calls p @
         [\<lparr>pool_call_kind = PoolTerminateCall,
           member_calls = map (\<lambda>t. length (calls t)) (threads p)\<rparr>]\<rparr>"

definition member_future :: "pool_call_kind \<Rightarrow> async_call \<Rightarrow> promise_state" where
  "member_future k c =
     (case k of
        PoolSettledCall \<Rightarrow> awaited c
      | PoolTerminateCall \<Rightarrow> if resumed c then Fulfilled JSUndefined else Pending)"

definition pool_future :: "EsThreadPool \<Rightarrow> nat \<Rightarrow> promise_state" where
  "pool_future p k =
     (if list_all2 (\<lambda>t j. is_fulfilled (member_future (pool_call_kind (pool_calls p ! k)) (calls t ! j)))
           (threads p) (member_calls (pool_calls p ! k))
      then Fulfilled JSUndefined else Pending)"

text \<open>
  What can happen to a pool: a call of \<^verbatim>\<open>queue\<close>, of \<^verbatim>\<open>settled\<close> or of
  \<^verbatim>\<open>terminate\<close>, or a turn of one member (a delivery on its channel, the second turn of
  its \<^verbatim>\<open>terminate\<close>, or a direct use of the member).
\<close>

datatype pool_action =
    Queue "action list"
  | PoolSettled
  | PoolTerminate
  | OnThread nat action

fun pool_step :: "EsThreadPool \<Rightarrow> pool_action \<Rightarrow> EsThreadPool" where
  "pool_step p (Queue cb) = snd (queue cb p)"
| "pool_step p PoolSettled = pool_settled p"
| "pool_step p PoolTerminate = pool_terminate p"
| "pool_step p (OnThread i act) =
     (if i < length (threads p) then p\<lparr>threads := (threads p)[i := step (threads p ! i) act]\<rparr>
      else p)"

definition pool_run :: "EsThreadPool \<Rightarrow> pool_action list \<Rightarrow> EsThreadPool" where
  "pool_run p pacts = foldl pool_step p pacts"

text \<open>
  Modelled from the spec: \<^verbatim>\<open>EsThreadPool.Spawn\<close> invokes the thread factory once per
  index and awaits each thread's own handshake. \<open>specs\<close> lists, index by index, the
  class of the new worker the factory spawns a thread on, the thread options and the
  messages that worker sends before the timeout.
\<close>

fun spawn_members ::
  "(worker_class \<times> nat option \<times> WorkerMessage list) list \<Rightarrow> EsThread list option" where
  "spawn_members [] = Some []"
| "spawn_members ((cls, threadOptions, msgs) # specs) =
     (case Spawn (new_worker cls) threadOptions msgs of
        SpawnRejected e w \<Rightarrow> None
      | SpawnResolved t \<Rightarrow>
          (case spawn_members specs of None \<Rightarrow> None | Some ts \<Rightarrow> Some (t # ts)))"

definition pool_after ::
  "(worker_class \<times> nat option \<times> WorkerMessage list) list \<Rightarrow> pool_action list \<Rightarrow>
     EsThreadPool option" where
  "pool_after specs pacts =
     (case spawn_members specs of
        None \<Rightarrow> None
      | Some ts \<Rightarrow> Some (pool_run \<lparr>threads = ts, pool_calls = []\<rparr> pacts))"

definition is_Invoke :: "action \<Rightarrow> bool" where
  "is_Invoke act = (case act of Invoke n u as \<Rightarrow> True | _ \<Rightarrow> False)"

fun submits :: "pool_action \<Rightarrow> bool" where
  "submits (Queue cb) = True"
| "submits (OnThread i act) = is_Invoke act"
| "submits _ = False"

text \<open>
  Two runs of a pool: a task submitted after \<^verbatim>\<open>pool.settled()\<close> was called, and a
  call of \<^verbatim>\<open>pool.terminate()\<close> while one member is idle and the other is busy.
\<close>

definition late_submission :: "pool_action list" where
  "late_submission =
     [Queue [Invoke ''f'' ''u1'' []], PoolSettled, Queue [Invoke ''f'' ''u2'' []],
      OnThread 0 (Deliver (TaskResult ''u1'' JSUndefined))]"

definition idle_member_first :: "pool_action list" where
  "idle_member_first =
     [Queue [Invoke ''f'' ''a'' []], Queue [Invoke ''f'' ''b'' []],
      OnThread 0 (Deliver (TaskResult ''a'' JSUndefined)), PoolTerminate,
      OnThread 0 (ResumeTerminate 0)]"

section \<open>The loop of argument packaging\<close>

lemma prepareArguments_loop_args:
  "args (prepareArguments_loop rawArgs as ts) = as @ rawArgs"
  by (induction rawArgs arbitrary: as ts) simp_all

lemma prepareArguments_loop_transfer:
  "transfer_list (prepareArguments_loop rawArgs as ts) =
     ts @ concat (map transferables (filter isTransferDescriptor rawArgs))"
  by (induction rawArgs arbitrary: as ts) simp_all

section \<open>Every turn preserves the invariant\<close>

subsection \<open>Invocation\<close>

lemma tasks_ok_create:
  assumes "tasks_ok th"
  shows "tasks_ok (snd (createProxyFunction m uid rawArgs th))"
  using assms
  unfolding tasks_ok_def createProxyFunction_def postMessage_def Let_def
  by (auto simp: distinct_update update_conv' nth_append less_SucI)

lemma call_ok_append:
  assumes "call_ok th c" "promises th' = promises th @ ps"
  shows "call_ok th' c"
proof -
  have eq: "\<And>a. a \<in> set (snapshot c) \<Longrightarrow> promises th' ! a = promises th ! a"
    using assms by (simp add: call_ok_def nth_append)
  have lt: "\<And>a. a \<in> set (snapshot c) \<Longrightarrow> a < length (promises th')"
    using assms by (auto simp add: call_ok_def)
  show ?thesis
    using assms(1) unfolding call_ok_def
    by (auto simp: eq lt split: promise_state.splits)
qed

lemma calls_create: "calls (snd (createProxyFunction m uid rawArgs th)) = calls th"
  by (simp add: createProxyFunction_def postMessage_def Let_def)

lemma promises_create:
  "promises (snd (createProxyFunction m uid rawArgs th)) =
     promises th @ [\<lparr>taskUID = uid, pstate = Pending\<rparr>]"
  by (simp add: createProxyFunction_def postMessage_def Let_def)

lemma worker_create:
  "worker (snd (createProxyFunction m uid rawArgs th)) =
     (worker th)\<lparr>posted := posted (worker th) @
        [(Run uid m (args (prepareArguments rawArgs)), transfer_list (prepareArguments rawArgs))]\<rparr>"
  by (simp add: createProxyFunction_def postMessage_def Let_def)

lemma channel_ok_create:
  assumes "channel_ok th"
  shows "channel_ok (snd (createProxyFunction m uid rawArgs th))"
  using assms unfolding channel_ok_def
  by (auto simp: worker_create calls_create channel_closed_def is_Run_def)

lemma thread_ok_create:
  assumes "thread_ok th"
  shows "thread_ok (snd (createProxyFunction m uid rawArgs th))"
  using assms unfolding thread_ok_def
  by (auto simp: tasks_ok_create channel_ok_create calls_create
      intro: call_ok_append [OF _ promises_create])

subsection \<open>Settlement and the recorded calls\<close>

lemma resumed_notify_fulfilled [simp]: "resumed (notify_fulfilled a c) = resumed c"
  by (simp add: notify_fulfilled_def)

lemma resumed_notify_rejected [simp]: "resumed (notify_rejected a e c) = resumed c"
  by (simp add: notify_rejected_def)

lemma kind_notify_fulfilled [simp]: "call_kind (notify_fulfilled a c) = call_kind c"
  by (simp add: notify_fulfilled_def)

lemma kind_notify_rejected [simp]: "call_kind (notify_rejected a e c) = call_kind c"
  by (simp add: notify_rejected_def)

lemma snapshot_notify_fulfilled [simp]: "snapshot (notify_fulfilled a c) = snapshot c"
  by (simp add: notify_fulfilled_def)

lemma snapshot_notify_rejected [simp]: "snapshot (notify_rejected a e c) = snapshot c"
  by (simp add: notify_rejected_def)

lemma call_ok_bound: "call_ok th c \<Longrightarrow> a \<in> set (snapshot c) \<Longrightarrow> a < length (promises th)"
  by (simp add: call_ok_def)

lemma call_ok_remaining:
  "call_ok th c \<Longrightarrow>
     set (remaining c) = {a \<in> set (snapshot c). pstate (promises th ! a) = Pending}"
  by (simp add: call_ok_def)

lemma call_ok_allSettled:
  "call_ok th c \<Longrightarrow> call_kind c \<noteq> ResolvedCall \<Longrightarrow>
     awaited c = (if remaining c = [] then Fulfilled JSUndefined else Pending)"
  by (simp add: call_ok_def)

lemma call_ok_all_Pending:
  "call_ok th c \<Longrightarrow> call_kind c = ResolvedCall \<Longrightarrow> awaited c = Pending \<Longrightarrow>
     remaining c \<noteq> [] \<and> (\<forall>a \<in> set (snapshot c). \<not> is_rejected (pstate (promises th ! a)))"
  by (simp add: call_ok_def)

lemma call_ok_all_Fulfilled:
  "call_ok th c \<Longrightarrow> call_kind c = ResolvedCall \<Longrightarrow> awaited c = Fulfilled v \<Longrightarrow>
     v = JSUndefined \<and> (\<forall>a \<in> set (snapshot c). is_fulfilled (pstate (promises th ! a)))"
  by (simp add: call_ok_def)

lemma call_ok_all_Rejected:
  "call_ok th c \<Longrightarrow> call_kind c = ResolvedCall \<Longrightarrow> awaited c = Rejected e \<Longrightarrow>
     \<exists>a \<in> set (snapshot c). pstate (promises th ! a) = Rejected e"
  by (simp add: call_ok_def)

lemma call_ok_resumed:
  "call_ok th c \<Longrightarrow> resumed c \<Longrightarrow> (\<exists>f. call_kind c = TerminateCall f) \<and> is_fulfilled (awaited c)"
  by (simp add: call_ok_def)

lemma call_ok_Pending_remaining:
  assumes "call_ok th c" "a \<in> set (remaining c)"
  shows "awaited c = Pending \<or> (call_kind c = ResolvedCall \<and> is_rejected (awaited c))"
proof (cases "call_kind c = ResolvedCall")
  case False
  with assms call_ok_allSettled [of th c] show ?thesis
    by (cases "remaining c") auto
next
  case True
  from assms have p: "a \<in> set (snapshot c)" "pstate (promises th ! a) = Pending"
    by (auto simp: call_ok_remaining)
  show ?thesis
  proof (cases "awaited c")
    case (Fulfilled v)
    with assms True p show ?thesis
      by (auto dest!: call_ok_all_Fulfilled)
  qed (simp_all add: True)
qed

lemma call_okI:
  assumes "\<And>a. a \<in> set (snapshot c) \<Longrightarrow> a < length (promises th)"
    and "set (remaining c) = {a \<in> set (snapshot c). pstate (promises th ! a) = Pending}"
    and "call_kind c \<noteq> ResolvedCall \<Longrightarrow>
           awaited c = (if remaining c = [] then Fulfilled JSUndefined else Pending)"
    and "call_kind c = ResolvedCall \<Longrightarrow> awaited c = Pending \<Longrightarrow>
           remaining c \<noteq> [] \<and> (\<forall>a \<in> set (snapshot c). \<not> is_rejected (pstate (promises th ! a)))"
    and "\<And>v. call_kind c = ResolvedCall \<Longrightarrow> awaited c = Fulfilled v \<Longrightarrow>
           v = JSUndefined \<and> (\<forall>a \<in> set (snapshot c). is_fulfilled (pstate (promises th ! a)))"
    and "\<And>e. call_kind c = ResolvedCall \<Longrightarrow> awaited c = Rejected e \<Longrightarrow>
           \<exists>a \<in> set (snapshot c). pstate (promises th ! a) = Rejected e"
    and "resumed c \<Longrightarrow> (\<exists>f. call_kind c = TerminateCall f) \<and> is_fulfilled (awaited c)"
  shows "call_ok th c"
  unfolding call_ok_def using assms
  by (auto split: promise_state.splits)

lemma call_ok_same:
  assumes ok: "call_ok th c"
    and len: "length (promises th') = length (promises th)"
    and same: "\<And>b. b \<in> set (snapshot c) \<Longrightarrow> pstate (promises th' ! b) = pstate (promises th ! b)"
  shows "call_ok th' c"
  using ok unfolding call_ok_def
  by (auto simp: same len split: promise_state.splits)

lemma call_ok_notify_fulfilled:
  assumes ok: "call_ok th c"
    and a: "a < length (promises th)" "pstate (promises th ! a) = Pending"
    and th': "promises th' = (promises th)[a := (promises th ! a)\<lparr>pstate := Fulfilled v\<rparr>]"
  shows "call_ok th' (notify_fulfilled a c)"
proof -
  have st: "\<And>b. b < length (promises th) \<Longrightarrow>
      pstate (promises th' ! b) = (if b = a then Fulfilled v else pstate (promises th ! b))"
    by (simp add: th' nth_list_update)
  have len: "length (promises th') = length (promises th)"
    by (simp add: th')
  note bound = call_ok_bound [OF ok]
  note R = call_ok_remaining [OF ok]
  show ?thesis
  proof (cases "a \<in> set (remaining c)")
    case False
    then have notin: "a \<notin> set (snapshot c)"
      using R a by auto
    then have same: "\<And>b. b \<in> set (snapshot c) \<Longrightarrow> pstate (promises th' ! b) = pstate (promises th ! b)"
      using st bound by auto
    from False have "notify_fulfilled a c = c"
      by (simp add: notify_fulfilled_def)
    then show ?thesis
      using call_ok_same [OF ok len same] by simp
  next
    case True
    let ?c = "notify_fulfilled a c"
    have c': "remaining ?c = removeAll a (remaining c)" "snapshot ?c = snapshot c"
      "call_kind ?c = call_kind c" "resumed ?c = resumed c"
      "awaited ?c = (if awaited c = Pending \<and> removeAll a (remaining c) = []
                      then Fulfilled JSUndefined else awaited c)"
      using True by (simp_all add: notify_fulfilled_def)
    have rem: "set (removeAll a (remaining c)) =
        {b \<in> set (snapshot c). pstate (promises th' ! b) = Pending}"
      using R bound st by (auto split: if_splits)
    have nres: "\<not> resumed c"
      using call_ok_resumed [OF ok] call_ok_allSettled [OF ok] True
      by (cases "remaining c") auto
    show ?thesis
    proof (rule call_okI)
      fix b assume "b \<in> set (snapshot ?c)"
      then show "b < length (promises th')" using bound len by (simp add: c')
    next
      show "set (remaining ?c) = {b \<in> set (snapshot ?c). pstate (promises th' ! b) = Pending}"
        using rem by (simp add: c')
    next
      assume "call_kind ?c \<noteq> ResolvedCall"
      then show "awaited ?c = (if remaining ?c = [] then Fulfilled JSUndefined else Pending)"
        using call_ok_allSettled [OF ok] True by (auto simp: c')
    next
      assume k: "call_kind ?c = ResolvedCall" and p: "awaited ?c = Pending"
      then have p0: "awaited c = Pending" and ne: "removeAll a (remaining c) \<noteq> []"
        by (auto simp: c' split: if_splits)
      from call_ok_all_Pending [OF ok _ p0] k
      have "\<forall>b \<in> set (snapshot c). \<not> is_rejected (pstate (promises th ! b))"
        by (simp add: c')
      then have "\<forall>b \<in> set (snapshot c). \<not> is_rejected (pstate (promises th' ! b))"
        using st bound by auto
      then show "remaining ?c \<noteq> [] \<and>
          (\<forall>b \<in> set (snapshot ?c). \<not> is_rejected (pstate (promises th' ! b)))"
        using ne by (simp add: c')
    next
      fix u assume k: "call_kind ?c = ResolvedCall" and f: "awaited ?c = Fulfilled u"
      from call_ok_Pending_remaining [OF ok True] have p0: "awaited c = Pending"
        using f by (auto simp: c' split: if_splits)
      with f have e: "removeAll a (remaining c) = []" and u: "u = JSUndefined"
        by (auto simp: c' split: if_splits)
      from call_ok_all_Pending [OF ok _ p0] k
      have "\<forall>b \<in> set (snapshot c). \<not> is_rejected (pstate (promises th ! b))"
        by (simp add: c')
      then have norej: "\<forall>b \<in> set (snapshot c). \<not> is_rejected (pstate (promises th' ! b))"
        using st bound by auto
      have "\<forall>b \<in> set (snapshot c). is_fulfilled (pstate (promises th' ! b))"
      proof
        fix b assume b: "b \<in> set (snapshot c)"
        from e rem b have "pstate (promises th' ! b) \<noteq> Pending" by auto
        moreover from norej b have "\<not> is_rejected (pstate (promises th' ! b))" by simp
        ultimately show "is_fulfilled (pstate (promises th' ! b))"
          by (cases "pstate (promises th' ! b)") auto
      qed
      then show "u = JSUndefined \<and>
          (\<forall>b \<in> set (snapshot ?c). is_fulfilled (pstate (promises th' ! b)))"
        using u by (simp add: c')
    next
      fix e assume k: "call_kind ?c = ResolvedCall" and r: "awaited ?c = Rejected e"
      then have r0: "awaited c = Rejected e"
        by (auto simp: c' split: if_splits)
      from call_ok_all_Rejected [OF ok _ r0] k
      obtain b where b: "b \<in> set (snapshot c)" "pstate (promises th ! b) = Rejected e"
        by (auto simp: c')
      with a have "b \<noteq> a" by auto
      with b st bound have "pstate (promises th' ! b) = Rejected e" by auto
      with b show "\<exists>b \<in> set (snapshot ?c). pstate (promises th' ! b) = Rejected e"
        by (auto simp: c')
    next
      assume "resumed ?c"
      with nres show "(\<exists>f. call_kind ?c = TerminateCall f) \<and> is_fulfilled (awaited ?c)"
        by (simp add: c')
    qed
  qed
qed

lemma call_ok_notify_rejected:
  assumes ok: "call_ok th c"
    and a: "a < length (promises th)" "pstate (promises th ! a) = Pending"
    and th': "promises th' = (promises th)[a := (promises th ! a)\<lparr>pstate := Rejected e\<rparr>]"
  shows "call_ok th' (notify_rejected a e c)"
proof -
  have st: "\<And>b. b < length (promises th) \<Longrightarrow>
      pstate (promises th' ! b) = (if b = a then Rejected e else pstate (promises th ! b))"
    by (simp add: th' nth_list_update)
  have len: "length (promises th') = length (promises th)"
    by (simp add: th')
  note bound = call_ok_bound [OF ok]
  note R = call_ok_remaining [OF ok]
  show ?thesis
  proof (cases "a \<in> set (remaining c)")
    case False
    then have notin: "a \<notin> set (snapshot c)"
      using R a by auto
    then have same: "\<And>b. b \<in> set (snapshot c) \<Longrightarrow> pstate (promises th' ! b) = pstate (promises th ! b)"
      using st bound by auto
    from False have "notify_rejected a e c = c"
      by (simp add: notify_rejected_def)
    then show ?thesis
      using call_ok_same [OF ok len same] by simp
  next
    case True
    let ?c = "notify_rejected a e c"
    have insnap: "a \<in> set (snapshot c)"
      using True R by auto
    have c': "remaining ?c = removeAll a (remaining c)" "snapshot ?c = snapshot c"
      "call_kind ?c = call_kind c" "resumed ?c = resumed c"
      using True by (simp_all add: notify_rejected_def notify_fulfilled_def)
    have aw: "awaited ?c =
        (if call_kind c = ResolvedCall
         then (if awaited c = Pending then Rejected e else awaited c)
         else (if awaited c = Pending \<and> removeAll a (remaining c) = []
               then Fulfilled JSUndefined else awaited c))"
      using True by (simp add: notify_rejected_def notify_fulfilled_def)
    have rem: "set (removeAll a (remaining c)) =
        {b \<in> set (snapshot c). pstate (promises th' ! b) = Pending}"
      using R bound st by (auto split: if_splits)
    have nres: "\<not> resumed c"
      using call_ok_resumed [OF ok] call_ok_allSettled [OF ok] True
      by (cases "remaining c") auto
    show ?thesis
    proof (rule call_okI)
      fix b assume "b \<in> set (snapshot ?c)"
      then show "b < length (promises th')" using bound len by (simp add: c')
    next
      show "set (remaining ?c) = {b \<in> set (snapshot ?c). pstate (promises th' ! b) = Pending}"
        using rem by (simp add: c')
    next
      assume "call_kind ?c \<noteq> ResolvedCall"
      then show "awaited ?c = (if remaining ?c = [] then Fulfilled JSUndefined else Pending)"
        using call_ok_allSettled [OF ok] True by (auto simp: c' aw)
    next
      assume k: "call_kind ?c = ResolvedCall" and p: "awaited ?c = Pending"
      then have False
        by (auto simp: c' aw split: if_splits)
      then show "remaining ?c \<noteq> [] \<and>
          (\<forall>b \<in> set (snapshot ?c). \<not> is_rejected (pstate (promises th' ! b)))" ..
    next
      fix u assume k: "call_kind ?c = ResolvedCall" and f: "awaited ?c = Fulfilled u"
      from call_ok_Pending_remaining [OF ok True] k f have False
        by (auto simp: c' aw split: if_splits)
      then show "u = JSUndefined \<and>
          (\<forall>b \<in> set (snapshot ?c). is_fulfilled (pstate (promises th' ! b)))" ..
    next
      fix e' assume k: "call_kind ?c = ResolvedCall" and r: "awaited ?c = Rejected e'"
      show "\<exists>b \<in> set (snapshot ?c). pstate (promises th' ! b) = Rejected e'"
      proof (cases "awaited c = Pending")
        case True
        with k r have "e' = e" by (simp add: c' aw)
        with insnap st a show ?thesis by (auto simp: c' intro!: bexI [of _ a])
      next
        case False
        with k r have r0: "awaited c = Rejected e'" by (simp add: c' aw)
        from call_ok_all_Rejected [OF ok _ r0] k
        obtain b where b: "b \<in> set (snapshot c)" "pstate (promises th ! b) = Rejected e'"
          by (auto simp: c')
        with a have "b \<noteq> a" by auto
        with b st bound have "pstate (promises th' ! b) = Rejected e'" by auto
        with b show ?thesis by (auto simp: c')
      qed
    next
      assume "resumed ?c"
      with nres show "(\<exists>f. call_kind ?c = TerminateCall f) \<and> is_fulfilled (awaited ?c)"
        by (simp add: c')
    qed
  qed
qed

subsection \<open>Dispatch\<close>

lemma tasks_ok_lookup:
  assumes "tasks_ok th" "map_of (tasks th) uid = Some a"
  shows "a < length (promises th)" "taskUID (promises th ! a) = uid"
    "pstate (promises th ! a) = Pending"
  using assms by (auto simp: tasks_ok_def)

lemma tasks_ok_evict:
  assumes ok: "tasks_ok th" and l: "map_of (tasks th) uid = Some a"
    and t: "tasks th' = AList.delete uid (tasks th)"
    and p: "promises th' = (promises th)[a := q]"
  shows "tasks_ok th'"
proof -
  have d: "distinct (map fst (tasks th'))"
    using ok by (simp add: t tasks_ok_def distinct_delete)
  have "\<And>k b. map_of (tasks th') k = Some b \<Longrightarrow>
      b < length (promises th') \<and> taskUID (promises th' ! b) = k \<and>
      pstate (promises th' ! b) = Pending"
  proof -
    fix k b assume kb: "map_of (tasks th') k = Some b"
    then have k: "k \<noteq> uid" and m: "map_of (tasks th) k = Some b"
      by (auto simp: t delete_conv' split: if_splits)
    from tasks_ok_lookup [OF ok m] tasks_ok_lookup [OF ok l] k have "b \<noteq> a"
      by auto
    with tasks_ok_lookup [OF ok m]
    show "b < length (promises th') \<and> taskUID (promises th' ! b) = k \<and>
      pstate (promises th' ! b) = Pending"
      by (simp add: p)
  qed
  with d show ?thesis
    unfolding tasks_ok_def by blast
qed

lemma channel_ok_cong:
  assumes "channel_ok th" "worker th' = worker th"
    "(\<exists>c \<in> set (calls th). resumed c) \<longrightarrow> (\<exists>c \<in> set (calls th'). resumed c)"
  shows "channel_ok th'"
  using assms unfolding channel_ok_def by auto

lemma dispatch_result_state:
  assumes ok: "tasks_ok th" and l: "map_of (tasks th) uid = Some a"
  shows "taskResultDispatch (TaskResult uid r) th =
     th\<lparr>tasks := AList.delete uid (tasks th),
        promises := (promises th)[a := (promises th ! a)\<lparr>pstate := Fulfilled r\<rparr>],
        calls := map (notify_fulfilled a) (calls th)\<rparr>"
  using tasks_ok_lookup [OF ok l] l
  by (simp add: task_resolve_def tasks_delete_def)

lemma dispatch_error_state:
  assumes ok: "tasks_ok th" and l: "map_of (tasks th) uid = Some a"
  shows "taskResultDispatch (TaskError uid m) th =
     th\<lparr>tasks := AList.delete uid (tasks th),
        promises := (promises th)[a := (promises th ! a)\<lparr>pstate := Rejected (Error m)\<rparr>],
        calls := map (notify_rejected a (Error m)) (calls th)\<rparr>"
  using tasks_ok_lookup [OF ok l] l
  by (simp add: task_reject_def tasks_delete_def)

lemma thread_ok_dispatch_result:
  assumes ok: "thread_ok th" and l: "map_of (tasks th) uid = Some a"
  shows "thread_ok (taskResultDispatch (TaskResult uid r) th)"
proof -
  from ok have t: "tasks_ok th" by (simp add: thread_ok_def)
  note a = tasks_ok_lookup [OF t l]
  let ?th = "taskResultDispatch (TaskResult uid r) th"
  note eq = dispatch_result_state [OF t l, of r]
  have 1: "tasks_ok ?th"
    unfolding eq by (rule tasks_ok_evict [OF t l]) simp_all
  have 2: "\<forall>c \<in> set (calls ?th). call_ok ?th c"
    unfolding eq using ok a
    by (auto simp: thread_ok_def intro!: call_ok_notify_fulfilled)
  have 3: "channel_ok ?th"
    unfolding eq using ok by (auto simp: thread_ok_def channel_ok_def)
  from 1 2 3 show ?thesis by (simp add: thread_ok_def)
qed

lemma thread_ok_dispatch_error:
  assumes ok: "thread_ok th" and l: "map_of (tasks th) uid = Some a"
  shows "thread_ok (taskResultDispatch (TaskError uid m) th)"
proof -
  from ok have t: "tasks_ok th" by (simp add: thread_ok_def)
  note a = tasks_ok_lookup [OF t l]
  let ?th = "taskResultDispatch (TaskError uid m) th"
  note eq = dispatch_error_state [OF t l, of m]
  have 1: "tasks_ok ?th"
    unfolding eq by (rule tasks_ok_evict [OF t l]) simp_all
  have 2: "\<forall>c \<in> set (calls ?th). call_ok ?th c"
    unfolding eq using ok a
    by (auto simp: thread_ok_def intro!: call_ok_notify_rejected)
  have 3: "channel_ok ?th"
    unfolding eq using ok by (auto simp: thread_ok_def channel_ok_def)
  from 1 2 3 show ?thesis by (simp add: thread_ok_def)
qed

lemma thread_ok_fault:
  assumes "thread_ok th"
  shows "thread_ok (dispatchErrorEvent e th)"
  using assms
  by (auto simp: thread_ok_def dispatchErrorEvent_def tasks_ok_def channel_ok_def
      intro: call_ok_same)

lemma thread_ok_taskResultDispatch:
  assumes "thread_ok th"
  shows "thread_ok (taskResultDispatch msg th)"
proof (cases msg)
  case (TaskResult uid r)
  show ?thesis
  proof (cases "map_of (tasks th) uid")
    case None
    with TaskResult assms show ?thesis by (simp add: thread_ok_fault)
  next
    case (Some a)
    from thread_ok_dispatch_result [OF assms Some] TaskResult show ?thesis by simp
  qed
next
  case (TaskError uid m)
  show ?thesis
  proof (cases "map_of (tasks th) uid")
    case None
    with TaskError assms show ?thesis by (simp add: thread_ok_fault)
  next
    case (Some a)
    from thread_ok_dispatch_error [OF assms Some] TaskError show ?thesis by simp
  qed
qed (simp_all add: assms thread_ok_fault)

subsection \<open>Calls of the draining methods\<close>

lemma tasks_ok_values:
  assumes "tasks_ok th" "a \<in> set (map snd (tasks th))"
  shows "a < length (promises th) \<and> pstate (promises th ! a) = Pending"
proof -
  from assms(2) obtain k where "(k, a) \<in> set (tasks th)" by auto
  with assms(1) have "map_of (tasks th) k = Some a"
    by (simp add: tasks_ok_def)
  with assms(1) show ?thesis by (simp add: tasks_ok_def)
qed

lemma is_fulfilled_iff: "is_fulfilled p \<longleftrightarrow> p \<noteq> Pending \<and> \<not> is_rejected p"
  by (cases p) simp_all

lemma call_ok_new:
  assumes ok: "tasks_ok th"
  shows "call_ok th \<lparr>call_kind = k, snapshot = map snd (tasks th),
            remaining = pending_of th (map snd (tasks th)),
            awaited = (if k = ResolvedCall then all_promises th (map snd (tasks th))
                       else allSettled th (map snd (tasks th))),
            resumed = False\<rparr>"
proof -
  let ?vs = "map snd (tasks th)"
  have rem: "set (pending_of th ?vs) = {a \<in> set ?vs. pstate (promises th ! a) = Pending}"
    by (auto simp: pending_of_def)
  have pend: "\<And>a. a \<in> set ?vs \<Longrightarrow> pstate (promises th ! a) = Pending"
    using tasks_ok_values [OF ok] by simp
  then have none: "find (\<lambda>a. is_rejected (pstate (promises th ! a))) ?vs = None"
    by (simp add: find_None_iff)
  have e: "pending_of th ?vs = [] \<longleftrightarrow> tasks th = []"
    using pend by (auto simp: pending_of_def filter_empty_conv)
  show ?thesis
    unfolding call_ok_def
    using tasks_ok_values [OF ok] rem
    by (simp add: all_promises_def allSettled_def none e)
qed

lemma thread_ok_new_call:
  assumes "thread_ok th"
  shows "thread_ok (new_call k th)"
proof -
  from assms have t: "tasks_ok th" by (simp add: thread_ok_def)
  have 1: "tasks_ok (new_call k th)"
    using t by (simp add: new_call_def tasks_ok_def Let_def)
  have same: "\<And>c. call_ok th c \<Longrightarrow> call_ok (new_call k th) c"
    by (rule call_ok_same) (simp_all add: new_call_def Let_def)
  have 2: "\<forall>c \<in> set (calls (new_call k th)). call_ok (new_call k th) c"
    using assms same call_ok_new [OF t, of k]
    by (auto simp: new_call_def Let_def thread_ok_def)
  have 3: "channel_ok (new_call k th)"
    using assms by (auto simp: thread_ok_def channel_ok_def new_call_def Let_def)
  from 1 2 3 show ?thesis by (simp add: thread_ok_def)
qed

lemma terminate_effects_fields:
  "tasks (terminate_effects f th) = tasks th"
  "promises (terminate_effects f th) = promises th"
  "calls (terminate_effects f th) = calls th"
  "methods (terminate_effects f th) = methods th"
  "error_events (terminate_effects f th) = error_events th"
  "worker_class (worker (terminate_effects f th)) = worker_class (worker th)"
  by (simp_all add: terminate_effects_def close_channel_def removeEventListener_def
      postMessage_def split: worker_class.splits)

lemma terminate_resume_enabled:
  assumes "k < length (calls th)" "call_kind (calls th ! k) = TerminateCall f"
    "is_fulfilled (awaited (calls th ! k))" "\<not> resumed (calls th ! k)"
  shows "terminate_resume k th =
     (terminate_effects f th)\<lparr>calls := (calls th)[k := (calls th ! k)\<lparr>resumed := True\<rparr>]\<rparr>"
  using assms
  by (simp add: terminate_resume_def terminate_effects_def Let_def terminate_effects_fields [unfolded terminate_effects_def])

lemma terminate_resume_disabled:
  assumes "\<not> (k < length (calls th) \<and> (\<exists>f. call_kind (calls th ! k) = TerminateCall f) \<and>
    is_fulfilled (awaited (calls th ! k)) \<and> \<not> resumed (calls th ! k))"
  shows "terminate_resume k th = th"
  using assms
  by (auto simp: terminate_resume_def split: call_kind.splits)

lemma thread_ok_terminate_resume:
  assumes ok: "thread_ok th"
  shows "thread_ok (terminate_resume k th)"
proof (cases "k < length (calls th) \<and> (\<exists>f. call_kind (calls th ! k) = TerminateCall f) \<and>
    is_fulfilled (awaited (calls th ! k)) \<and> \<not> resumed (calls th ! k)")
  case False
  then show ?thesis using ok by (simp add: terminate_resume_disabled)
next
  case True
  then obtain f where k: "k < length (calls th)" and f: "call_kind (calls th ! k) = TerminateCall f"
    and ful: "is_fulfilled (awaited (calls th ! k))" and nr: "\<not> resumed (calls th ! k)"
    by blast
  let ?c = "(calls th ! k)\<lparr>resumed := True\<rparr>"
  let ?th = "(terminate_effects f th)\<lparr>calls := (calls th)[k := ?c]\<rparr>"
  have eq: "terminate_resume k th = ?th"
    by (rule terminate_resume_enabled [OF k f ful nr])
  have 1: "tasks_ok ?th"
    using ok by (simp add: thread_ok_def tasks_ok_def terminate_effects_fields)
  have ck: "call_ok th (calls th ! k)"
    using ok k by (simp add: thread_ok_def)
  have "call_ok th ?c"
    using ck f ful unfolding call_ok_def by simp
  then have "\<forall>c \<in> set ((calls th)[k := ?c]). call_ok th c"
    using ok by (auto simp: thread_ok_def dest!: set_update_subset_insert [THEN subsetD])
  moreover have "\<And>c. call_ok th c \<Longrightarrow> call_ok ?th c"
    by (rule call_ok_same) (simp_all add: terminate_effects_fields)
  ultimately have 2: "\<forall>c \<in> set (calls ?th). call_ok ?th c"
    by simp
  have "?c \<in> set ((calls th)[k := ?c])"
    using k by (simp add: set_update_memI)
  then have "\<exists>c \<in> set (calls ?th). resumed c"
    by (intro bexI [of _ ?c]) simp_all
  then have 3: "channel_ok ?th"
    using ok unfolding channel_ok_def thread_ok_def
    by (simp add: terminate_effects_fields)
  from 1 2 3 show ?thesis by (simp add: thread_ok_def eq)
qed

lemma thread_ok_step:
  assumes "thread_ok th"
  shows "thread_ok (step th act)"
  using assms
  by (cases act)
    (auto simp: thread_ok_create thread_ok_taskResultDispatch thread_ok_new_call
      thread_ok_terminate_resume settled_def resolved_def terminate_def
      split: option.splits ProxyFunction.splits)

lemma thread_ok_run:
  assumes "thread_ok th"
  shows "thread_ok (run th acts)"
  using assms unfolding run_def
  by (induction acts arbitrary: th) (simp_all add: thread_ok_step)

section \<open>What Spawn returns\<close>

lemma createMethodsProxy_fields:
  "tasks (createMethodsProxy ns th) = tasks th"
  "promises (createMethodsProxy ns th) = promises th"
  "calls (createMethodsProxy ns th) = calls th"
  "worker (createMethodsProxy ns th) = worker th"
  "error_events (createMethodsProxy ns th) = error_events th"
  "timeout (createMethodsProxy ns th) = timeout th"
  by (induction ns arbitrary: th) simp_all

lemma createMethodsProxy_methods:
  "map_of (methods (createMethodsProxy ns th)) n =
     (if n \<in> set ns then Some (ProxyFunction n) else map_of (methods th) n)"
  by (induction ns arbitrary: th) (simp_all add: update_conv')

lemma Spawn_ServiceWorker:
  "worker_class w = ServiceWorker \<Longrightarrow>
     Spawn w topt msgs = SpawnRejected (Error ''ServiceWorker currently not supported.'') w"
  by (simp add: Spawn_def EsThread_constructor_def)

lemma close_channel_closed:
  "worker_class (worker th) \<noteq> ServiceWorker \<Longrightarrow> channel_closed (worker (close_channel th))"
  by (cases "worker_class (worker th)") (simp_all add: close_channel_def channel_closed_def)

lemma initMessageHandler_class:
  "worker_class (worker (fst (initMessageHandler m th))) = worker_class (worker th)"
  by (cases m) (simp_all add: removeEventListener_def)

lemma initMessageHandler_Inl:
  "(\<forall>ns. m \<noteq> Init ns) \<Longrightarrow> \<exists>e. snd (initMessageHandler m th) = Inl e"
  by (cases m) simp_all

lemma Spawn_rejected:
  assumes w: "worker_class w \<noteq> ServiceWorker"
    and m: "\<forall>ns rest. msgs \<noteq> Init ns # rest"
  shows "\<exists>e w'. Spawn w topt msgs = SpawnRejected e w' \<and> channel_closed w'"
proof -
  obtain th0 where c: "EsThread_constructor w topt = Inr th0"
    and k: "worker_class (worker th0) \<noteq> ServiceWorker"
    using w by (auto simp: EsThread_constructor_def)
  let ?th1 = "addEventListener InitMessageHandler th0"
  have k1: "worker_class (worker ?th1) \<noteq> ServiceWorker"
    using k by (simp add: addEventListener_def)
  obtain th2 e where h: "withTimeout_init msgs ?th1 = (th2, Inl e)"
    and k2: "worker_class (worker th2) \<noteq> ServiceWorker"
  proof (cases msgs)
    case Nil
    then show ?thesis using k1 that by (simp add: withTimeout_init_def)
  next
    case (Cons a rest)
    with m have "\<forall>ns. a \<noteq> Init ns" by simp
    from initMessageHandler_Inl [OF this, of ?th1] obtain e
      where "snd (initMessageHandler a ?th1) = Inl e" ..
    then have "initMessageHandler a ?th1 = (fst (initMessageHandler a ?th1), Inl e)"
      by (metis prod.collapse)
    then show ?thesis
      using that [of "fst (initMessageHandler a ?th1)" e] k1 Cons
      by (simp add: withTimeout_init_def initMessageHandler_class)
  qed
  have "Spawn w topt msgs = SpawnRejected e (worker (close_channel th2))"
    by (simp add: Spawn_def c initThread_def h)
  with close_channel_closed [OF k2] show ?thesis by blast
qed

lemma Spawn_timeout:
  assumes w: "worker_class w \<noteq> ServiceWorker"
  shows "\<exists>w'. Spawn w topt [] =
      SpawnRejected (Error (''Timeout: Did not receive an init message from worker after '' @
        decimal (case topt of None \<Rightarrow> 10000 | Some t \<Rightarrow> t) @ ''ms'')) w' \<and> channel_closed w'"
  using w
  by (cases "worker_class w")
    (simp_all add: Spawn_def EsThread_constructor_def initThread_def withTimeout_init_def
      addEventListener_def close_channel_def channel_closed_def DefaultEsThreadOptions_timeout_def
      split: option.splits)

lemma Spawn_Init:
  assumes "worker_class w \<noteq> ServiceWorker"
  shows "Spawn w topt (Init ns # rest) = SpawnResolved (handshake_done w topt ns)"
  using assms
  by (simp add: Spawn_def EsThread_constructor_def initThread_def withTimeout_init_def
      handshake_done_def)

lemma Spawn_resolved:
  assumes "Spawn w topt msgs = SpawnResolved th"
  shows "worker_class w \<noteq> ServiceWorker \<and> (\<exists>ns rest. msgs = Init ns # rest \<and> th = handshake_done w topt ns)"
proof -
  have w: "worker_class w \<noteq> ServiceWorker"
    using assms by (auto simp: Spawn_ServiceWorker)
  have "\<exists>ns rest. msgs = Init ns # rest"
    using Spawn_rejected [OF w, of msgs topt] assms by auto
  then obtain ns rest where m: "msgs = Init ns # rest" by blast
  with assms Spawn_Init [OF w, of topt ns rest] have "th = handshake_done w topt ns"
    by simp
  with w m show ?thesis by blast
qed

lemma handshake_done_fields:
  "tasks (handshake_done w topt ns) = []"
  "promises (handshake_done w topt ns) = []"
  "calls (handshake_done w topt ns) = []"
  "error_events (handshake_done w topt ns) = []"
  "map_of (methods (handshake_done w topt ns)) n = (if n \<in> set ns then Some (ProxyFunction n) else None)"
  "TaskResultDispatchListener \<in> set (listeners (worker (handshake_done w topt ns)))"
  "InitMessageHandler \<notin> set (listeners (worker (handshake_done w topt ns)))"
  "terminated (worker (handshake_done w topt ns)) = terminated w"
  "port_closed (worker (handshake_done w topt ns)) = port_closed w"
  "posted (worker (handshake_done w topt ns)) = posted w"
  "worker_class (worker (handshake_done w topt ns)) = worker_class w"
  by (simp_all add: handshake_done_def addEventListener_def removeEventListener_def
      createMethodsProxy_fields createMethodsProxy_methods)

section \<open>Every reachable state satisfies the invariant\<close>

lemma thread_ok_handshake_done:
  assumes "cls \<noteq> ServiceWorker"
  shows "thread_ok (handshake_done (new_worker cls) topt ns)"
  using assms
  unfolding thread_ok_def tasks_ok_def channel_ok_def channel_closed_def
  by (simp add: handshake_done_fields new_worker_def)

lemma thread_after_Some:
  assumes "thread_after cls topt msgs acts = Some th"
  shows "cls \<noteq> ServiceWorker \<and>
    (\<exists>ns rest. msgs = Init ns # rest \<and> th = run (handshake_done (new_worker cls) topt ns) acts)"
proof -
  from assms obtain th0 where s: "Spawn (new_worker cls) topt msgs = SpawnResolved th0"
    and th: "th = run th0 acts"
    by (auto simp: thread_after_def split: spawn_result.splits)
  from Spawn_resolved [OF s] th show ?thesis
    by (auto simp: new_worker_def)
qed

lemma thread_after_ok:
  assumes "thread_after cls topt msgs acts = Some th"
  shows "thread_ok th"
  using thread_after_Some [OF assms]
  by (auto intro!: thread_ok_run thread_ok_handshake_done)

lemma thread_after_append:
  assumes "thread_after cls topt msgs acts = Some th"
  shows "thread_after cls topt msgs (acts @ acts') = Some (run th acts')"
  using assms
  by (auto simp: thread_after_def run_def split: spawn_result.splits)

lemma run_append: "run th (acts @ acts') = run (run th acts) acts'"
  by (simp add: run_def)

lemma run_Cons: "run th (act # acts) = run (step th act) acts"
  by (simp add: run_def)

lemma run_Nil: "run th [] = th"
  by (simp add: run_def)

text \<open>A settled handle never changes again, whatever the thread does.\<close>

lemma promises_task_resolve:
  "length (promises (task_resolve a v th)) = length (promises th) \<and>
   (b < length (promises th) \<longrightarrow> pstate (promises th ! b) \<noteq> Pending \<longrightarrow>
      promises (task_resolve a v th) ! b = promises th ! b)"
  by (auto simp: task_resolve_def nth_list_update)

lemma promises_task_reject:
  "length (promises (task_reject a e th)) = length (promises th) \<and>
   (b < length (promises th) \<longrightarrow> pstate (promises th ! b) \<noteq> Pending \<longrightarrow>
      promises (task_reject a e th) ! b = promises th ! b)"
  by (auto simp: task_reject_def nth_list_update)

lemma promises_taskResultDispatch:
  "length (promises (taskResultDispatch msg th)) = length (promises th) \<and>
   (b < length (promises th) \<longrightarrow> pstate (promises th ! b) \<noteq> Pending \<longrightarrow>
      promises (taskResultDispatch msg th) ! b = promises th ! b)"
proof (cases msg)
  case (TaskResult uid r)
  then show ?thesis
    using promises_task_resolve [of _ r "tasks_delete (taskUID (promises th ! the (map_of (tasks th) uid))) th" b]
    by (auto simp: dispatchErrorEvent_def tasks_delete_def split: option.splits)
next
  case (TaskError uid m)
  then show ?thesis
    using promises_task_reject [of _ "Error m" "tasks_delete (taskUID (promises th ! the (map_of (tasks th) uid))) th" b]
    by (auto simp: dispatchErrorEvent_def tasks_delete_def split: option.splits)
qed (simp_all add: dispatchErrorEvent_def)

lemma promises_terminate_resume: "promises (terminate_resume k th) = promises th"
  by (simp add: terminate_resume_def Let_def close_channel_def removeEventListener_def
      postMessage_def split: call_kind.splits worker_class.splits)

lemma settled_stable_step:
  assumes "b < length (promises th)" "pstate (promises th ! b) \<noteq> Pending"
  shows "b < length (promises (step th act)) \<and> promises (step th act) ! b = promises th ! b"
proof (cases act)
  case (Invoke name uid rawArgs)
  with assms show ?thesis
    by (auto simp: promises_create nth_append split: option.splits ProxyFunction.splits)
next
  case (Deliver msg)
  with assms promises_taskResultDispatch [of msg th b] show ?thesis
    by auto
next
  case (ResumeTerminate k)
  with assms show ?thesis by (simp add: promises_terminate_resume)
qed (simp_all add: assms settled_def resolved_def terminate_def new_call_def Let_def)

lemma settled_stable_run:
  assumes "b < length (promises th)" "pstate (promises th ! b) \<noteq> Pending"
  shows "b < length (promises (run th acts)) \<and> promises (run th acts) ! b = promises th ! b"
  using assms
proof (induction acts arbitrary: th)
  case Nil
  then show ?case by (simp add: run_Nil)
next
  case (Cons act acts)
  from settled_stable_step [OF Cons.prems, of act]
  have s: "b < length (promises (step th act))" "promises (step th act) ! b = promises th ! b"
    by simp_all
  with Cons.prems have "pstate (promises (step th act) ! b) \<noteq> Pending" by simp
  from Cons.IH [OF s(1) this] s show ?case
    by (simp add: run_Cons)
qed

section \<open>Recorded calls over time\<close>

text \<open>
  A recorded call keeps its place, its kind and its snapshot; once its aggregate has
  settled, the aggregate keeps its state; once resumed, it stays resumed.
\<close>

lemma call_extends_refl: "call_extends c c"
  by (simp add: call_extends_def)

lemma call_extends_trans: "call_extends c c' \<Longrightarrow> call_extends c' c'' \<Longrightarrow> call_extends c c''"
  by (auto simp: call_extends_def)

lemma call_extends_notify_fulfilled: "call_extends c (notify_fulfilled a c)"
  by (simp add: call_extends_def notify_fulfilled_def)

lemma call_extends_notify_rejected: "call_extends c (notify_rejected a e c)"
  by (simp add: call_extends_def notify_rejected_def notify_fulfilled_def)

lemma calls_task_resolve:
  "k < length (calls th) \<Longrightarrow>
     k < length (calls (task_resolve a v th)) \<and>
     call_extends (calls th ! k) (calls (task_resolve a v th) ! k)"
  by (simp add: task_resolve_def call_extends_refl call_extends_notify_fulfilled)

lemma calls_task_reject:
  "k < length (calls th) \<Longrightarrow>
     k < length (calls (task_reject a e th)) \<and>
     call_extends (calls th ! k) (calls (task_reject a e th) ! k)"
  by (simp add: task_reject_def call_extends_refl call_extends_notify_rejected)

lemma calls_taskResultDispatch:
  assumes "k < length (calls th)"
  shows "k < length (calls (taskResultDispatch msg th)) \<and>
     call_extends (calls th ! k) (calls (taskResultDispatch msg th) ! k)"
proof (cases msg)
  case (TaskResult uid r)
  show ?thesis
  proof (cases "map_of (tasks th) uid")
    case None
    with TaskResult assms show ?thesis
      by (simp add: dispatchErrorEvent_def call_extends_refl)
  next
    case (Some a)
    with TaskResult assms
      calls_task_resolve [of k "tasks_delete (taskUID (promises th ! a)) th" a r]
    show ?thesis by (simp add: tasks_delete_def)
  qed
next
  case (TaskError uid m)
  show ?thesis
  proof (cases "map_of (tasks th) uid")
    case None
    with TaskError assms show ?thesis
      by (simp add: dispatchErrorEvent_def call_extends_refl)
  next
    case (Some a)
    with TaskError assms
      calls_task_reject [of k "tasks_delete (taskUID (promises th ! a)) th" a "Error m"]
    show ?thesis by (simp add: tasks_delete_def)
  qed
qed (simp_all add: assms dispatchErrorEvent_def call_extends_refl)

lemma calls_new_call:
  "calls (new_call kind th) = calls th @
     [\<lparr>call_kind = kind, snapshot = map snd (tasks th),
       remaining = pending_of th (map snd (tasks th)),
       awaited = (if kind = ResolvedCall then all_promises th (map snd (tasks th))
                  else allSettled th (map snd (tasks th))),
       resumed = False\<rparr>]"
  by (simp add: new_call_def Let_def)

lemma calls_terminate_resume:
  assumes "k < length (calls th)"
  shows "k < length (calls (terminate_resume j th)) \<and>
     call_extends (calls th ! k) (calls (terminate_resume j th) ! k)"
proof (cases "j < length (calls th) \<and> (\<exists>f. call_kind (calls th ! j) = TerminateCall f) \<and>
    is_fulfilled (awaited (calls th ! j)) \<and> \<not> resumed (calls th ! j)")
  case False
  with assms show ?thesis
    by (simp add: terminate_resume_disabled call_extends_refl)
next
  case True
  then obtain f where "j < length (calls th)" "call_kind (calls th ! j) = TerminateCall f"
    "is_fulfilled (awaited (calls th ! j))" "\<not> resumed (calls th ! j)"
    by blast
  from terminate_resume_enabled [OF this] assms show ?thesis
    by (cases "k = j") (simp_all add: call_extends_def)
qed

lemma call_extends_step:
  assumes "k < length (calls th)"
  shows "k < length (calls (step th act)) \<and> call_extends (calls th ! k) (calls (step th act) ! k)"
proof (cases act)
  case (Invoke name uid rawArgs)
  with assms show ?thesis
    by (auto simp: calls_create call_extends_refl split: option.splits ProxyFunction.splits)
next
  case (Deliver msg)
  with assms calls_taskResultDispatch [OF assms, of msg] show ?thesis
    by (simp add: call_extends_refl)
next
  case (ResumeTerminate j)
  with calls_terminate_resume [OF assms, of j] show ?thesis by simp
qed (insert assms, simp_all add: settled_def resolved_def terminate_def calls_new_call
    nth_append call_extends_refl less_SucI)

lemma call_extends_run:
  assumes "k < length (calls th)"
  shows "k < length (calls (run th acts)) \<and> call_extends (calls th ! k) (calls (run th acts) ! k)"
  using assms
proof (induction acts arbitrary: th)
  case Nil
  then show ?case by (simp add: run_Nil call_extends_refl)
next
  case (Cons act acts)
  from call_extends_step [OF Cons.prems, of act]
  have s: "k < length (calls (step th act))"
    "call_extends (calls th ! k) (calls (step th act) ! k)"
    by simp_all
  from Cons.IH [OF s(1)] s(2) show ?case
    by (auto simp: run_Cons intro: call_extends_trans)
qed

text \<open>
  What the invariant says about a call that waits on \<^verbatim>\<open>Promise.allSettled\<close>: its
  aggregate is fulfilled exactly when no handle of its snapshot is pending, and it is
  never rejected.
\<close>

lemma call_ok_allSettled_iff:
  assumes "call_ok th c" "call_kind c \<noteq> ResolvedCall"
  shows "awaited c =
     (if \<forall>a \<in> set (snapshot c). is_settled (pstate (promises th ! a))
      then Fulfilled JSUndefined else Pending)"
proof -
  have "remaining c = [] \<longleftrightarrow> (\<forall>a \<in> set (snapshot c). is_settled (pstate (promises th ! a)))"
    using call_ok_remaining [OF assms(1)]
    by (auto simp: is_settled_def simp flip: set_empty)
  with call_ok_allSettled [OF assms] show ?thesis by simp
qed

lemma call_ok_all_iff:
  assumes ok: "call_ok th c" and k: "call_kind c = ResolvedCall"
  shows "(is_fulfilled (awaited c) \<longleftrightarrow>
            (\<forall>a \<in> set (snapshot c). is_fulfilled (pstate (promises th ! a)))) \<and>
         (is_rejected (awaited c) \<longleftrightarrow>
            (\<exists>a \<in> set (snapshot c). is_rejected (pstate (promises th ! a)))) \<and>
         (\<forall>e. awaited c = Rejected e \<longrightarrow>
            (\<exists>a \<in> set (snapshot c). pstate (promises th ! a) = Rejected e)) \<and>
         (\<forall>v. awaited c = Fulfilled v \<longrightarrow> v = JSUndefined)"
proof (cases "awaited c")
  case Pending
  from call_ok_all_Pending [OF ok k Pending] call_ok_remaining [OF ok]
  obtain a where "a \<in> set (snapshot c)" "pstate (promises th ! a) = Pending"
    and "\<forall>a \<in> set (snapshot c). \<not> is_rejected (pstate (promises th ! a))"
    by (cases "remaining c") auto
  with Pending show ?thesis by (auto intro!: bexI [of _ a])
next
  case (Fulfilled v)
  from call_ok_all_Fulfilled [OF ok k Fulfilled]
  have "v = JSUndefined" "\<forall>a \<in> set (snapshot c). is_fulfilled (pstate (promises th ! a))"
    by simp_all
  with Fulfilled show ?thesis
    by (auto simp: is_fulfilled_iff)
next
  case (Rejected e)
  from call_ok_all_Rejected [OF ok k Rejected]
  obtain a where "a \<in> set (snapshot c)" "pstate (promises th ! a) = Rejected e"
    by blast
  with Rejected show ?thesis
    by (auto simp: is_fulfilled_iff intro!: bexI [of _ a])
qed

section \<open>Argument packaging: order and descriptors\<close>

lemma prepareArguments_args: "args (prepareArguments rawArgs) = rawArgs"
  by (simp add: prepareArguments_def prepareArguments_loop_args)

lemma prepareArguments_transfer_list:
  "transfer_list (prepareArguments rawArgs) =
     concat (map transferables (filter isTransferDescriptor rawArgs))"
  by (simp add: prepareArguments_def prepareArguments_loop_transfer)

lemma descriptor_is_not_its_value: "TransferDescriptor v ts \<noteq> v"
  by (induction v arbitrary: ts) auto

text \<open>
  C7. For every proxy-method invocation with any argument list, the args sequence placed
  in the Run message is the argument list in its input order (transfer-marked and plain
  arguments keep their places), and the accompanying transfer list is exactly the
  concatenation, in argument order, of the transfer lists of the transfer-marked
  arguments. The invocation posts exactly this one message.
\<close>

theorem run_message_preserves_order:
  "args (prepareArguments rawArgs) = rawArgs \<and>
   transfer_list (prepareArguments rawArgs) =
     concat (map transferables (filter isTransferDescriptor rawArgs)) \<and>
   posted (worker (snd (createProxyFunction method uid rawArgs th))) =
     posted (worker th) @
       [(Run uid method rawArgs,
         concat (map transferables (filter isTransferDescriptor rawArgs)))]"
  by (simp add: prepareArguments_args prepareArguments_transfer_list worker_create)

text \<open>
  C9. For every proxy-method invocation whose argument at some position is
  transfer-marked, that position of the Run message's args sequence holds the transfer
  descriptor object itself, not the value the descriptor wraps: the controller strips
  nothing.
\<close>

theorem descriptor_sent_unstripped:
  "args (prepareArguments (before @ TransferDescriptor v ts # after)) ! length before =
     TransferDescriptor v ts \<and>
   args (prepareArguments (before @ TransferDescriptor v ts # after)) ! length before \<noteq> v \<and>
   fst (last (posted (worker (snd (createProxyFunction method uid
       (before @ TransferDescriptor v ts # after) th))))) =
     Run uid method (before @ TransferDescriptor v ts # after)"
  by (simp add: prepareArguments_args worker_create descriptor_is_not_its_value)

section \<open>The handshake\<close>

text \<open>
  C3. For every call of Spawn on a worker the constructor accepts: if the handshake
  timeout elapses, or an UncaughtError message or any message other than Init arrives
  before Init, then the channel is torn down (worker terminated or port closed) and
  Spawn rejects, with the timeout named in the error when nothing arrived. Spawn
  resolves only when Init arrived first, and the thread it returns is complete: a
  callable proxy for every method name announced, the result listener attached, the
  handshake listener detached, no task and no pending call, the channel as open as it
  was. Whenever Init arrives first, Spawn resolves.
\<close>

theorem Spawn_all_or_nothing:
  "(worker_class w \<noteq> ServiceWorker \<and> (\<forall>ns rest. msgs \<noteq> Init ns # rest) \<longrightarrow>
      (\<exists>e w'. Spawn w threadOptions msgs = SpawnRejected e w' \<and> channel_closed w')) \<and>
   (worker_class w \<noteq> ServiceWorker \<longrightarrow>
      (\<exists>w'. Spawn w threadOptions [] =
         SpawnRejected
           (Error (''Timeout: Did not receive an init message from worker after '' @
              decimal (case threadOptions of None \<Rightarrow> 10000 | Some t \<Rightarrow> t) @ ''ms'')) w' \<and>
         channel_closed w')) \<and>
   (\<forall>th. Spawn w threadOptions msgs = SpawnResolved th \<longrightarrow>
      (\<exists>ns rest. msgs = Init ns # rest \<and>
         (\<forall>n \<in> set ns. map_of (methods th) n = Some (ProxyFunction n) \<and>
            (\<forall>uid rawArgs. step th (Invoke n uid rawArgs) =
               snd (createProxyFunction n uid rawArgs th)))) \<and>
      TaskResultDispatchListener \<in> set (listeners (worker th)) \<and>
      InitMessageHandler \<notin> set (listeners (worker th)) \<and>
      tasks th = [] \<and> calls th = [] \<and>
      terminated (worker th) = terminated w \<and> port_closed (worker th) = port_closed w) \<and>
   (worker_class w \<noteq> ServiceWorker \<longrightarrow>
      (\<forall>ns rest. \<exists>th. Spawn w threadOptions (Init ns # rest) = SpawnResolved th))"
proof (intro conjI impI allI)
  assume "worker_class w \<noteq> ServiceWorker \<and> (\<forall>ns rest. msgs \<noteq> Init ns # rest)"
  then show "\<exists>e w'. Spawn w threadOptions msgs = SpawnRejected e w' \<and> channel_closed w'"
    using Spawn_rejected by blast
next
  assume "worker_class w \<noteq> ServiceWorker"
  then show "\<exists>w'. Spawn w threadOptions [] =
         SpawnRejected
           (Error (''Timeout: Did not receive an init message from worker after '' @
              decimal (case threadOptions of None \<Rightarrow> 10000 | Some t \<Rightarrow> t) @ ''ms'')) w' \<and>
         channel_closed w'"
    by (rule Spawn_timeout)
next
  fix ns rest
  assume "worker_class w \<noteq> ServiceWorker"
  then show "\<exists>th. Spawn w threadOptions (Init ns # rest) = SpawnResolved th"
    by (simp add: Spawn_Init)
next
  fix th
  assume s: "Spawn w threadOptions msgs = SpawnResolved th"
  from Spawn_resolved [OF s] obtain ns rest
    where m: "msgs = Init ns # rest" and th: "th = handshake_done w threadOptions ns"
    by blast
  have "\<forall>n \<in> set ns. map_of (methods th) n = Some (ProxyFunction n) \<and>
      (\<forall>uid rawArgs. step th (Invoke n uid rawArgs) = snd (createProxyFunction n uid rawArgs th))"
    by (simp add: th handshake_done_fields)
  with m show "\<exists>ns rest. msgs = Init ns # rest \<and>
         (\<forall>n \<in> set ns. map_of (methods th) n = Some (ProxyFunction n) \<and>
            (\<forall>uid rawArgs. step th (Invoke n uid rawArgs) =
               snd (createProxyFunction n uid rawArgs th)))"
    by blast
  show "TaskResultDispatchListener \<in> set (listeners (worker th))"
    "InitMessageHandler \<notin> set (listeners (worker th))"
    "tasks th = []" "calls th = []"
    "terminated (worker th) = terminated w" "port_closed (worker th) = port_closed w"
    by (simp_all add: th handshake_done_fields)
qed

theorem Spawn_all_or_nothing_witness:
  "worker_class (new_worker SharedWorker) \<noteq> ServiceWorker \<and>
   (\<exists>e w'. Spawn (new_worker SharedWorker) (Some 50) [TaskResult ''u'' JSUndefined, Init [''f'']] =
      SpawnRejected e w' \<and> channel_closed w') \<and>
   (\<exists>w'. Spawn (new_worker SharedWorker) (Some 50) [] =
      SpawnRejected (Error ''Timeout: Did not receive an init message from worker after 50ms'') w' \<and>
      channel_closed w') \<and>
   (\<exists>th. Spawn (new_worker SharedWorker) (Some 50) [Init [''f'']] = SpawnResolved th \<and>
      map_of (methods th) ''f'' = Some (ProxyFunction ''f'') \<and>
      TaskResultDispatchListener \<in> set (listeners (worker th)))"
proof -
  have d: "decimal 50 = ''50''"
    by code_simp
  have k: "worker_class (new_worker SharedWorker) \<noteq> ServiceWorker"
    by (simp add: new_worker_def)
  note t = Spawn_all_or_nothing [of "new_worker SharedWorker" _ "Some 50"]
  have 1: "\<exists>e w'. Spawn (new_worker SharedWorker) (Some 50) [TaskResult ''u'' JSUndefined, Init [''f'']] =
      SpawnRejected e w' \<and> channel_closed w'"
    using t [of "[TaskResult ''u'' JSUndefined, Init [''f'']]"] k by simp
  have 2: "\<exists>w'. Spawn (new_worker SharedWorker) (Some 50) [] =
      SpawnRejected (Error ''Timeout: Did not receive an init message from worker after 50ms'') w' \<and>
      channel_closed w'"
    using t [of "[]"] k d by simp
  obtain th where s: "Spawn (new_worker SharedWorker) (Some 50) [Init [''f'']] = SpawnResolved th"
    using t [of "[]"] k by blast
  from t [of "[Init [''f'']]"] s
  have "map_of (methods th) ''f'' = Some (ProxyFunction ''f'') \<and>
      TaskResultDispatchListener \<in> set (listeners (worker th))"
    by simp
  with s 1 2 k show ?thesis by blast
qed

section \<open>Dispatch of results and faults\<close>

lemmas model_defs =
  thread_after_def Spawn_def EsThread_constructor_def initThread_def withTimeout_init_def
  addEventListener_def removeEventListener_def DefaultEsThreadOptions_timeout_def
  new_worker_def run_def createProxyFunction_def postMessage_def prepareArguments_def
  task_resolve_def task_reject_def tasks_delete_def dispatchErrorEvent_def notify_fulfilled_def
  notify_rejected_def settled_def resolved_def terminate_def new_call_def pending_of_def
  allSettled_def all_promises_def terminate_resume_def close_channel_def
  numQueuedTasks_def channel_closed_def Let_def

lemma dispatch_fault_state:
  assumes "case msg of TaskResult uid r \<Rightarrow> map_of (tasks th) uid = None
             | TaskError uid m \<Rightarrow> map_of (tasks th) uid = None | _ \<Rightarrow> True"
  shows "\<exists>e. taskResultDispatch msg th = dispatchErrorEvent e th"
  using assms by (cases msg) auto

text \<open>
  C4. For every message received by the post-handshake listener of a spawned thread: a
  TaskResult whose id is in the pending mapping fulfils exactly that task's future with
  the carried result and evicts the entry; a TaskError whose id is in the mapping
  rejects exactly that task's future with an error wrapping the carried message and
  evicts the entry; neither reports a fault. An UncaughtError, a TaskResult or TaskError
  whose id is not in the mapping, or any other tag appends one fault notification to
  the thread's error events and changes no future, no entry and no aggregate.
\<close>

theorem taskResultDispatch_demultiplexes:
  assumes "thread_after cls threadOptions msgs acts = Some th"
  shows
    "(\<forall>uid a r. map_of (tasks th) uid = Some a \<longrightarrow>
        taskUID (promises th ! a) = uid \<and>
        pstate (promises (taskResultDispatch (TaskResult uid r) th) ! a) = Fulfilled r \<and>
        (\<forall>b. b \<noteq> a \<longrightarrow>
           promises (taskResultDispatch (TaskResult uid r) th) ! b = promises th ! b) \<and>
        tasks (taskResultDispatch (TaskResult uid r) th) = AList.delete uid (tasks th) \<and>
        map_of (tasks (taskResultDispatch (TaskResult uid r) th)) uid = None \<and>
        error_events (taskResultDispatch (TaskResult uid r) th) = error_events th) \<and>
     (\<forall>uid a m. map_of (tasks th) uid = Some a \<longrightarrow>
        taskUID (promises th ! a) = uid \<and>
        pstate (promises (taskResultDispatch (TaskError uid m) th) ! a) = Rejected (Error m) \<and>
        (\<forall>b. b \<noteq> a \<longrightarrow>
           promises (taskResultDispatch (TaskError uid m) th) ! b = promises th ! b) \<and>
        tasks (taskResultDispatch (TaskError uid m) th) = AList.delete uid (tasks th) \<and>
        map_of (tasks (taskResultDispatch (TaskError uid m) th)) uid = None \<and>
        error_events (taskResultDispatch (TaskError uid m) th) = error_events th) \<and>
     (\<forall>msg. (case msg of TaskResult uid r \<Rightarrow> map_of (tasks th) uid = None
                | TaskError uid m \<Rightarrow> map_of (tasks th) uid = None | _ \<Rightarrow> True) \<longrightarrow>
        (\<exists>e. error_events (taskResultDispatch msg th) = error_events th @ [e]) \<and>
        promises (taskResultDispatch msg th) = promises th \<and>
        tasks (taskResultDispatch msg th) = tasks th \<and>
        calls (taskResultDispatch msg th) = calls th)"
proof (intro conjI allI impI)
  note ok = thread_after_ok [OF assms]
  then have t: "tasks_ok th" by (simp add: thread_ok_def)
  {
    fix uid a r assume l: "map_of (tasks th) uid = Some a"
    note a = tasks_ok_lookup [OF t l]
    note eq = dispatch_result_state [OF t l, of r]
    show "taskUID (promises th ! a) = uid" by (rule a)
    show "pstate (promises (taskResultDispatch (TaskResult uid r) th) ! a) = Fulfilled r"
      unfolding eq using a by simp
    show "tasks (taskResultDispatch (TaskResult uid r) th) = AList.delete uid (tasks th)"
      unfolding eq by simp
    show "map_of (tasks (taskResultDispatch (TaskResult uid r) th)) uid = None"
      unfolding eq by (simp add: delete_conv')
    show "error_events (taskResultDispatch (TaskResult uid r) th) = error_events th"
      unfolding eq by simp
    fix b assume "b \<noteq> a"
    then show "promises (taskResultDispatch (TaskResult uid r) th) ! b = promises th ! b"
      unfolding eq by simp
  }
  {
    fix uid a m assume l: "map_of (tasks th) uid = Some a"
    note a = tasks_ok_lookup [OF t l]
    note eq = dispatch_error_state [OF t l, of m]
    show "taskUID (promises th ! a) = uid" by (rule a)
    show "pstate (promises (taskResultDispatch (TaskError uid m) th) ! a) = Rejected (Error m)"
      unfolding eq using a by simp
    show "tasks (taskResultDispatch (TaskError uid m) th) = AList.delete uid (tasks th)"
      unfolding eq by simp
    show "map_of (tasks (taskResultDispatch (TaskError uid m) th)) uid = None"
      unfolding eq by (simp add: delete_conv')
    show "error_events (taskResultDispatch (TaskError uid m) th) = error_events th"
      unfolding eq by simp
    fix b assume "b \<noteq> a"
    then show "promises (taskResultDispatch (TaskError uid m) th) ! b = promises th ! b"
      unfolding eq by simp
  }
  {
    fix msg
    assume "case msg of TaskResult uid r \<Rightarrow> map_of (tasks th) uid = None
             | TaskError uid m \<Rightarrow> map_of (tasks th) uid = None | _ \<Rightarrow> True"
    from dispatch_fault_state [OF this] obtain e
      where e: "taskResultDispatch msg th = dispatchErrorEvent e th" ..
    show "\<exists>e. error_events (taskResultDispatch msg th) = error_events th @ [e]"
      unfolding e by (simp add: dispatchErrorEvent_def)
    show "promises (taskResultDispatch msg th) = promises th"
      "tasks (taskResultDispatch msg th) = tasks th"
      "calls (taskResultDispatch msg th) = calls th"
      unfolding e by (simp_all add: dispatchErrorEvent_def)
  }
qed

theorem taskResultDispatch_demultiplexes_witness:
  "\<exists>th. thread_after Worker None [Init [''helloWorld'']] [Invoke ''helloWorld'' ''u1'' []] = Some th \<and>
     map_of (tasks th) ''u1'' = Some 0 \<and>
     pstate (promises (taskResultDispatch (TaskResult ''u1'' (JSString ''Hello World!'')) th) ! 0) =
       Fulfilled (JSString ''Hello World!'') \<and>
     pstate (promises (taskResultDispatch (TaskError ''u1'' ''no'') th) ! 0) = Rejected (Error ''no'') \<and>
     (\<exists>e. error_events (taskResultDispatch (UnchaughtError ''boom'') th) = error_events th @ [e]) \<and>
     (\<exists>e. error_events (taskResultDispatch (TaskResult ''u2'' JSUndefined) th) = error_events th @ [e])"
proof -
  obtain th where th: "thread_after Worker None [Init [''helloWorld'']] [Invoke ''helloWorld'' ''u1'' []] = Some th"
    by (simp add: model_defs)
  then have l: "map_of (tasks th) ''u1'' = Some 0" and l2: "map_of (tasks th) ''u2'' = None"
    by (auto simp: model_defs)
  note t = taskResultDispatch_demultiplexes [OF th]
  from t l have "pstate (promises (taskResultDispatch (TaskResult ''u1'' (JSString ''Hello World!'')) th) ! 0) =
       Fulfilled (JSString ''Hello World!'')"
    by blast
  moreover from t l have "pstate (promises (taskResultDispatch (TaskError ''u1'' ''no'') th) ! 0) = Rejected (Error ''no'')"
    by blast
  moreover from t have "\<exists>e. error_events (taskResultDispatch (UnchaughtError ''boom'') th) = error_events th @ [e]"
    by (elim conjE allE [of _ "UnchaughtError ''boom''"]) simp
  moreover from t l2 have "\<exists>e. error_events (taskResultDispatch (TaskResult ''u2'' JSUndefined) th) = error_events th @ [e]"
    by (elim conjE allE [of _ "TaskResult ''u2'' JSUndefined"]) simp
  ultimately show ?thesis using th l by blast
qed

section \<open>Accounting of pending tasks\<close>

lemma length_update_alist:
  "length (AList.update k v al) = (if k \<in> fst ` set al then length al else Suc (length al))"
  by (induction al) auto

lemma numQueuedTasks_create:
  "numQueuedTasks (snd (createProxyFunction method uid rawArgs th)) =
     (if uid \<in> fst ` set (tasks th) then numQueuedTasks th else Suc (numQueuedTasks th))"
  by (simp add: numQueuedTasks_def createProxyFunction_def postMessage_def Let_def
      length_update_alist)

lemma length_delete_present:
  assumes "distinct (map fst al)" "map_of al k = Some v"
  shows "Suc (length (AList.delete k al)) = length al"
  using assms
proof (induction al)
  case Nil
  then show ?case by simp
next
  case (Cons p al)
  show ?case
  proof (cases "fst p = k")
    case True
    with Cons.prems have "k \<notin> fst ` set al" by auto
    then have "AList.delete k al = al"
      by (rule delete_id)
    with True show ?thesis by (cases p) simp
  next
    case False
    with Cons show ?thesis by (cases p) auto
  qed
qed

lemma numQueuedTasks_card:
  assumes "tasks_ok th"
  shows "numQueuedTasks th = card (dom (map_of (tasks th)))"
proof -
  from assms have d: "distinct (map fst (tasks th))"
    by (simp add: tasks_ok_def)
  have "card (dom (map_of (tasks th))) = card (set (map fst (tasks th)))"
    by (simp add: dom_map_of_conv_image_fst)
  also have "\<dots> = length (map fst (tasks th))"
    by (rule distinct_card [OF d])
  finally show ?thesis by (simp add: numQueuedTasks_def)
qed

lemma numQueuedTasks_new_call: "numQueuedTasks (new_call k th) = numQueuedTasks th"
  by (simp add: numQueuedTasks_def new_call_def Let_def)

lemma numQueuedTasks_terminate_resume: "numQueuedTasks (terminate_resume k th) = numQueuedTasks th"
  by (simp add: numQueuedTasks_def terminate_resume_def Let_def close_channel_def
      removeEventListener_def postMessage_def split: call_kind.splits worker_class.splits)

text \<open>
  C2. For every spawned thread, numQueuedTasks equals the current size of the
  pending-task mapping. A proxy-method invocation, whose fresh id is not in the mapping,
  has increased it by exactly 1 when it returns. The delivery of a TaskResult or a
  TaskError for a pending id, which resolves or rejects the task, decreases it by
  exactly 1 (so it was at least 1), and a further message with that id does not decrease
  it again. Faults, settled(), resolved() and both turns of terminate() leave it as it
  is. It is a natural number, never negative.
\<close>

theorem numQueuedTasks_accounting:
  assumes "thread_after cls threadOptions msgs acts = Some th"
  shows
    "numQueuedTasks th = card (dom (map_of (tasks th))) \<and>
     (\<forall>method uid rawArgs. map_of (tasks th) uid = None \<longrightarrow>
        numQueuedTasks (snd (createProxyFunction method uid rawArgs th)) = numQueuedTasks th + 1) \<and>
     (\<forall>uid a r r' m'. map_of (tasks th) uid = Some a \<longrightarrow>
        numQueuedTasks (taskResultDispatch (TaskResult uid r) th) + 1 = numQueuedTasks th \<and>
        numQueuedTasks (taskResultDispatch (TaskResult uid r') (taskResultDispatch (TaskResult uid r) th)) =
          numQueuedTasks (taskResultDispatch (TaskResult uid r) th) \<and>
        numQueuedTasks (taskResultDispatch (TaskError uid m') (taskResultDispatch (TaskResult uid r) th)) =
          numQueuedTasks (taskResultDispatch (TaskResult uid r) th)) \<and>
     (\<forall>uid a m r' m'. map_of (tasks th) uid = Some a \<longrightarrow>
        numQueuedTasks (taskResultDispatch (TaskError uid m) th) + 1 = numQueuedTasks th \<and>
        numQueuedTasks (taskResultDispatch (TaskResult uid r') (taskResultDispatch (TaskError uid m) th)) =
          numQueuedTasks (taskResultDispatch (TaskError uid m) th) \<and>
        numQueuedTasks (taskResultDispatch (TaskError uid m') (taskResultDispatch (TaskError uid m) th)) =
          numQueuedTasks (taskResultDispatch (TaskError uid m) th)) \<and>
     (\<forall>msg. (case msg of TaskResult uid r \<Rightarrow> map_of (tasks th) uid = None
                | TaskError uid m \<Rightarrow> map_of (tasks th) uid = None | _ \<Rightarrow> True) \<longrightarrow>
        numQueuedTasks (taskResultDispatch msg th) = numQueuedTasks th) \<and>
     numQueuedTasks (settled th) = numQueuedTasks th \<and>
     numQueuedTasks (resolved th) = numQueuedTasks th \<and>
     numQueuedTasks (terminate flag th) = numQueuedTasks th \<and>
     numQueuedTasks (terminate_resume k th) = numQueuedTasks th \<and>
     0 \<le> numQueuedTasks th"
proof -
  note ok = thread_after_ok [OF assms]
  then have t: "tasks_ok th" by (simp add: thread_ok_def)
  then have d: "distinct (map fst (tasks th))" by (simp add: tasks_ok_def)
  have 1: "numQueuedTasks th = card (dom (map_of (tasks th)))"
    by (rule numQueuedTasks_card [OF t])
  have 2: "\<forall>method uid rawArgs. map_of (tasks th) uid = None \<longrightarrow>
        numQueuedTasks (snd (createProxyFunction method uid rawArgs th)) = numQueuedTasks th + 1"
    by (simp add: numQueuedTasks_create map_of_eq_None_iff)
  have again: "\<And>th' uid r' m'. map_of (tasks th') uid = None \<Longrightarrow>
      numQueuedTasks (taskResultDispatch (TaskResult uid r') th') = numQueuedTasks th' \<and>
      numQueuedTasks (taskResultDispatch (TaskError uid m') th') = numQueuedTasks th'"
    by (simp add: numQueuedTasks_def dispatchErrorEvent_def)
  have 3: "\<forall>uid a r r' m'. map_of (tasks th) uid = Some a \<longrightarrow>
        numQueuedTasks (taskResultDispatch (TaskResult uid r) th) + 1 = numQueuedTasks th \<and>
        numQueuedTasks (taskResultDispatch (TaskResult uid r') (taskResultDispatch (TaskResult uid r) th)) =
          numQueuedTasks (taskResultDispatch (TaskResult uid r) th) \<and>
        numQueuedTasks (taskResultDispatch (TaskError uid m') (taskResultDispatch (TaskResult uid r) th)) =
          numQueuedTasks (taskResultDispatch (TaskResult uid r) th)"
  proof (intro allI impI)
    fix uid a r r' m' assume l: "map_of (tasks th) uid = Some a"
    note eq = dispatch_result_state [OF t l, of r]
    have dec: "numQueuedTasks (taskResultDispatch (TaskResult uid r) th) + 1 = numQueuedTasks th"
      unfolding eq using length_delete_present [OF d l] by (simp add: numQueuedTasks_def)
    have n: "map_of (tasks (taskResultDispatch (TaskResult uid r) th)) uid = None"
      unfolding eq by (simp add: delete_conv')
    from dec again [OF n, of r' m']
    show "numQueuedTasks (taskResultDispatch (TaskResult uid r) th) + 1 = numQueuedTasks th \<and>
        numQueuedTasks (taskResultDispatch (TaskResult uid r') (taskResultDispatch (TaskResult uid r) th)) =
          numQueuedTasks (taskResultDispatch (TaskResult uid r) th) \<and>
        numQueuedTasks (taskResultDispatch (TaskError uid m') (taskResultDispatch (TaskResult uid r) th)) =
          numQueuedTasks (taskResultDispatch (TaskResult uid r) th)"
      by blast
  qed
  have 4: "\<forall>uid a m r' m'. map_of (tasks th) uid = Some a \<longrightarrow>
        numQueuedTasks (taskResultDispatch (TaskError uid m) th) + 1 = numQueuedTasks th \<and>
        numQueuedTasks (taskResultDispatch (TaskResult uid r') (taskResultDispatch (TaskError uid m) th)) =
          numQueuedTasks (taskResultDispatch (TaskError uid m) th) \<and>
        numQueuedTasks (taskResultDispatch (TaskError uid m') (taskResultDispatch (TaskError uid m) th)) =
          numQueuedTasks (taskResultDispatch (TaskError uid m) th)"
  proof (intro allI impI)
    fix uid a m r' m' assume l: "map_of (tasks th) uid = Some a"
    note eq = dispatch_error_state [OF t l, of m]
    have dec: "numQueuedTasks (taskResultDispatch (TaskError uid m) th) + 1 = numQueuedTasks th"
      unfolding eq using length_delete_present [OF d l] by (simp add: numQueuedTasks_def)
    have n: "map_of (tasks (taskResultDispatch (TaskError uid m) th)) uid = None"
      unfolding eq by (simp add: delete_conv')
    from dec again [OF n, of r' m']
    show "numQueuedTasks (taskResultDispatch (TaskError uid m) th) + 1 = numQueuedTasks th \<and>
        numQueuedTasks (taskResultDispatch (TaskResult uid r') (taskResultDispatch (TaskError uid m) th)) =
          numQueuedTasks (taskResultDispatch (TaskError uid m) th) \<and>
        numQueuedTasks (taskResultDispatch (TaskError uid m') (taskResultDispatch (TaskError uid m) th)) =
          numQueuedTasks (taskResultDispatch (TaskError uid m) th)"
      by blast
  qed
  have 5: "\<forall>msg. (case msg of TaskResult uid r \<Rightarrow> map_of (tasks th) uid = None
                | TaskError uid m \<Rightarrow> map_of (tasks th) uid = None | _ \<Rightarrow> True) \<longrightarrow>
        numQueuedTasks (taskResultDispatch msg th) = numQueuedTasks th"
  proof (intro allI impI)
    fix msg
    assume "case msg of TaskResult uid r \<Rightarrow> map_of (tasks th) uid = None
             | TaskError uid m \<Rightarrow> map_of (tasks th) uid = None | _ \<Rightarrow> True"
    from dispatch_fault_state [OF this] obtain e
      where e: "taskResultDispatch msg th = dispatchErrorEvent e th" ..
    show "numQueuedTasks (taskResultDispatch msg th) = numQueuedTasks th"
      unfolding e by (simp add: dispatchErrorEvent_def numQueuedTasks_def)
  qed
  have 6: "numQueuedTasks (settled th) = numQueuedTasks th"
    "numQueuedTasks (resolved th) = numQueuedTasks th"
    "numQueuedTasks (terminate flag th) = numQueuedTasks th"
    "numQueuedTasks (terminate_resume k th) = numQueuedTasks th"
    by (simp_all add: settled_def resolved_def terminate_def numQueuedTasks_new_call
        numQueuedTasks_terminate_resume)
  from 1 2 3 4 5 6 show ?thesis by simp
qed

theorem numQueuedTasks_accounting_witness:
  "\<exists>th. thread_after Worker None [Init [''takesTime'']] [Invoke ''takesTime'' ''u1'' [JSNumber 250]] = Some th \<and>
     map_of (tasks th) ''u2'' = None \<and> map_of (tasks th) ''u1'' = Some 0 \<and>
     numQueuedTasks th = 1 \<and>
     numQueuedTasks (snd (createProxyFunction ''takesTime'' ''u2'' [JSNumber 250] th)) = 2 \<and>
     numQueuedTasks (taskResultDispatch (TaskResult ''u1'' (JSString ''Hello World!'')) th) = 0 \<and>
     numQueuedTasks (taskResultDispatch (TaskError ''u1'' ''late'')
        (taskResultDispatch (TaskResult ''u1'' (JSString ''Hello World!'')) th)) = 0 \<and>
     numQueuedTasks (taskResultDispatch (UnchaughtError ''boom'') th) = 1"
proof -
  obtain th where th: "thread_after Worker None [Init [''takesTime'']] [Invoke ''takesTime'' ''u1'' [JSNumber 250]] = Some th"
    by (simp add: model_defs)
  then have l: "map_of (tasks th) ''u1'' = Some 0" and l2: "map_of (tasks th) ''u2'' = None"
    and n: "numQueuedTasks th = 1"
    by (auto simp: model_defs)
  note t = numQueuedTasks_accounting [OF th, of None 0]
  from t l2 n have a: "numQueuedTasks (snd (createProxyFunction ''takesTime'' ''u2'' [JSNumber 250] th)) = 2"
    by simp
  from t l have "numQueuedTasks (taskResultDispatch (TaskResult ''u1'' (JSString ''Hello World!'')) th) + 1 = numQueuedTasks th"
    by blast
  with n have b: "numQueuedTasks (taskResultDispatch (TaskResult ''u1'' (JSString ''Hello World!'')) th) = 0"
    by simp
  from t l have "numQueuedTasks (taskResultDispatch (TaskError ''u1'' ''late'')
        (taskResultDispatch (TaskResult ''u1'' (JSString ''Hello World!'')) th)) =
      numQueuedTasks (taskResultDispatch (TaskResult ''u1'' (JSString ''Hello World!'')) th)"
    by blast
  with b have c: "numQueuedTasks (taskResultDispatch (TaskError ''u1'' ''late'')
        (taskResultDispatch (TaskResult ''u1'' (JSString ''Hello World!'')) th)) = 0"
    by simp
  from t have "\<forall>msg. (case msg of TaskResult uid r \<Rightarrow> map_of (tasks th) uid = None
                | TaskError uid m \<Rightarrow> map_of (tasks th) uid = None | _ \<Rightarrow> True) \<longrightarrow>
        numQueuedTasks (taskResultDispatch msg th) = numQueuedTasks th"
    by blast
  from this [rule_format, of "UnchaughtError ''boom''"]
  have "numQueuedTasks (taskResultDispatch (UnchaughtError ''boom'') th) = numQueuedTasks th"
    by simp
  with n have d: "numQueuedTasks (taskResultDispatch (UnchaughtError ''boom'') th) = 1"
    by simp
  from th l l2 n a b c d show ?thesis by blast
qed

section \<open>Eviction comes before settlement\<close>

lemma tasks_task_resolve: "tasks (task_resolve a v th) = tasks th"
  by (simp add: task_resolve_def)

lemma tasks_task_reject: "tasks (task_reject a e th) = tasks th"
  by (simp add: task_reject_def)

text \<open>
  C10. For every TaskResult or TaskError message that settles a pending task of a spawned
  thread, the handler is the deletion of the task's entry followed by the settlement of
  its handle: in the state between the two the id is no longer in the pending mapping,
  the count is already one less, and the handle is still pending. So whenever a handle
  is settled it is not counted by numQueuedTasks (every counted handle is pending). A
  second TaskResult or TaskError with the same id right after is a fault that leaves
  every handle as it is, and nothing the thread does later changes the settled handle.
\<close>

theorem evicted_before_settled:
  assumes "thread_after cls threadOptions msgs acts = Some th"
  shows
    "(\<forall>uid a r m. map_of (tasks th) uid = Some a \<longrightarrow>
        taskResultDispatch (TaskResult uid r) th =
          task_resolve a r (tasks_delete (taskUID (promises th ! a)) th) \<and>
        taskResultDispatch (TaskError uid m) th =
          task_reject a (Error m) (tasks_delete (taskUID (promises th ! a)) th) \<and>
        map_of (tasks (tasks_delete (taskUID (promises th ! a)) th)) uid = None \<and>
        a \<notin> snd ` set (tasks (tasks_delete (taskUID (promises th ! a)) th)) \<and>
        numQueuedTasks (tasks_delete (taskUID (promises th ! a)) th) + 1 = numQueuedTasks th \<and>
        pstate (promises (tasks_delete (taskUID (promises th ! a)) th) ! a) = Pending \<and>
        numQueuedTasks (taskResultDispatch (TaskResult uid r) th) =
          numQueuedTasks (tasks_delete (taskUID (promises th ! a)) th) \<and>
        numQueuedTasks (taskResultDispatch (TaskError uid m) th) =
          numQueuedTasks (tasks_delete (taskUID (promises th ! a)) th) \<and>
        pstate (promises (taskResultDispatch (TaskResult uid r) th) ! a) = Fulfilled r \<and>
        pstate (promises (taskResultDispatch (TaskError uid m) th) ! a) = Rejected (Error m)) \<and>
     (\<forall>a \<in> snd ` set (tasks th). pstate (promises th ! a) = Pending) \<and>
     (\<forall>uid a first r' m'. map_of (tasks th) uid = Some a \<longrightarrow>
        (\<exists>r m. first = TaskResult uid r \<or> first = TaskError uid m) \<longrightarrow>
        promises (taskResultDispatch (TaskResult uid r') (taskResultDispatch first th)) =
          promises (taskResultDispatch first th) \<and>
        promises (taskResultDispatch (TaskError uid m') (taskResultDispatch first th)) =
          promises (taskResultDispatch first th) \<and>
        (\<exists>e. error_events (taskResultDispatch (TaskResult uid r') (taskResultDispatch first th)) =
           error_events (taskResultDispatch first th) @ [e]) \<and>
        (\<exists>e. error_events (taskResultDispatch (TaskError uid m') (taskResultDispatch first th)) =
           error_events (taskResultDispatch first th) @ [e]) \<and>
        (\<forall>acts'. promises (run (taskResultDispatch first th) acts') ! a =
           promises (taskResultDispatch first th) ! a))"
proof (intro conjI)
  note ok = thread_after_ok [OF assms]
  then have t: "tasks_ok th" by (simp add: thread_ok_def)
  then have d: "distinct (map fst (tasks th))" by (simp add: tasks_ok_def)
  show "\<forall>a \<in> snd ` set (tasks th). pstate (promises th ! a) = Pending"
    using tasks_ok_values [OF t] by simp
  show "\<forall>uid a r m. map_of (tasks th) uid = Some a \<longrightarrow>
        taskResultDispatch (TaskResult uid r) th =
          task_resolve a r (tasks_delete (taskUID (promises th ! a)) th) \<and>
        taskResultDispatch (TaskError uid m) th =
          task_reject a (Error m) (tasks_delete (taskUID (promises th ! a)) th) \<and>
        map_of (tasks (tasks_delete (taskUID (promises th ! a)) th)) uid = None \<and>
        a \<notin> snd ` set (tasks (tasks_delete (taskUID (promises th ! a)) th)) \<and>
        numQueuedTasks (tasks_delete (taskUID (promises th ! a)) th) + 1 = numQueuedTasks th \<and>
        pstate (promises (tasks_delete (taskUID (promises th ! a)) th) ! a) = Pending \<and>
        numQueuedTasks (taskResultDispatch (TaskResult uid r) th) =
          numQueuedTasks (tasks_delete (taskUID (promises th ! a)) th) \<and>
        numQueuedTasks (taskResultDispatch (TaskError uid m) th) =
          numQueuedTasks (tasks_delete (taskUID (promises th ! a)) th) \<and>
        pstate (promises (taskResultDispatch (TaskResult uid r) th) ! a) = Fulfilled r \<and>
        pstate (promises (taskResultDispatch (TaskError uid m) th) ! a) = Rejected (Error m)"
  proof (intro allI impI)
    fix uid a r m assume l: "map_of (tasks th) uid = Some a"
    note a = tasks_ok_lookup [OF t l]
    let ?mid = "tasks_delete (taskUID (promises th ! a)) th"
    have mid: "?mid = th\<lparr>tasks := AList.delete uid (tasks th)\<rparr>"
      by (simp add: tasks_delete_def a)
    have 1: "taskResultDispatch (TaskResult uid r) th = task_resolve a r ?mid"
      "taskResultDispatch (TaskError uid m) th = task_reject a (Error m) ?mid"
      using l by simp_all
    have 2: "map_of (tasks ?mid) uid = None"
      by (simp add: mid delete_conv')
    have 3: "a \<notin> snd ` set (tasks ?mid)"
    proof
      assume "a \<in> snd ` set (tasks ?mid)"
      then obtain k where k: "(k, a) \<in> set (AList.delete uid (tasks th))"
        by (auto simp: mid)
      then have "k \<noteq> uid" "(k, a) \<in> set (tasks th)"
        by (auto simp: AList.delete_eq)
      with d have "k \<noteq> uid" "map_of (tasks th) k = Some a" by simp_all
      with tasks_ok_lookup(2) [OF t this(2)] a show False by simp
    qed
    have 4: "numQueuedTasks ?mid + 1 = numQueuedTasks th"
      using length_delete_present [OF d l] by (simp add: mid numQueuedTasks_def)
    have 5: "pstate (promises ?mid ! a) = Pending"
      using a by (simp add: tasks_delete_def)
    have 6: "numQueuedTasks (taskResultDispatch (TaskResult uid r) th) = numQueuedTasks ?mid"
      "numQueuedTasks (taskResultDispatch (TaskError uid m) th) = numQueuedTasks ?mid"
      unfolding 1 by (simp_all add: numQueuedTasks_def tasks_task_resolve tasks_task_reject)
    have 7: "pstate (promises (taskResultDispatch (TaskResult uid r) th) ! a) = Fulfilled r"
      unfolding dispatch_result_state [OF t l] using a by simp
    have 8: "pstate (promises (taskResultDispatch (TaskError uid m) th) ! a) = Rejected (Error m)"
      unfolding dispatch_error_state [OF t l] using a by simp
    from 1 2 3 4 5 6 7 8
    show "taskResultDispatch (TaskResult uid r) th = task_resolve a r ?mid \<and>
        taskResultDispatch (TaskError uid m) th = task_reject a (Error m) ?mid \<and>
        map_of (tasks ?mid) uid = None \<and>
        a \<notin> snd ` set (tasks ?mid) \<and>
        numQueuedTasks ?mid + 1 = numQueuedTasks th \<and>
        pstate (promises ?mid ! a) = Pending \<and>
        numQueuedTasks (taskResultDispatch (TaskResult uid r) th) = numQueuedTasks ?mid \<and>
        numQueuedTasks (taskResultDispatch (TaskError uid m) th) = numQueuedTasks ?mid \<and>
        pstate (promises (taskResultDispatch (TaskResult uid r) th) ! a) = Fulfilled r \<and>
        pstate (promises (taskResultDispatch (TaskError uid m) th) ! a) = Rejected (Error m)"
      by blast
  qed
  show "\<forall>uid a first r' m'. map_of (tasks th) uid = Some a \<longrightarrow>
        (\<exists>r m. first = TaskResult uid r \<or> first = TaskError uid m) \<longrightarrow>
        promises (taskResultDispatch (TaskResult uid r') (taskResultDispatch first th)) =
          promises (taskResultDispatch first th) \<and>
        promises (taskResultDispatch (TaskError uid m') (taskResultDispatch first th)) =
          promises (taskResultDispatch first th) \<and>
        (\<exists>e. error_events (taskResultDispatch (TaskResult uid r') (taskResultDispatch first th)) =
           error_events (taskResultDispatch first th) @ [e]) \<and>
        (\<exists>e. error_events (taskResultDispatch (TaskError uid m') (taskResultDispatch first th)) =
           error_events (taskResultDispatch first th) @ [e]) \<and>
        (\<forall>acts'. promises (run (taskResultDispatch first th) acts') ! a =
           promises (taskResultDispatch first th) ! a)"
  proof (intro allI impI)
    fix uid a first r' m'
    assume l: "map_of (tasks th) uid = Some a"
      and f: "\<exists>r m. first = TaskResult uid r \<or> first = TaskError uid m"
    note a = tasks_ok_lookup [OF t l]
    let ?th = "taskResultDispatch first th"
    have n: "map_of (tasks ?th) uid = None"
      and s: "a < length (promises ?th)" "pstate (promises ?th ! a) \<noteq> Pending"
      using f a dispatch_result_state [OF t l] dispatch_error_state [OF t l]
      by (auto simp: delete_conv')
    from n have "promises (taskResultDispatch (TaskResult uid r') ?th) = promises ?th"
      "promises (taskResultDispatch (TaskError uid m') ?th) = promises ?th"
      "\<exists>e. error_events (taskResultDispatch (TaskResult uid r') ?th) = error_events ?th @ [e]"
      "\<exists>e. error_events (taskResultDispatch (TaskError uid m') ?th) = error_events ?th @ [e]"
      by (simp_all add: dispatchErrorEvent_def)
    moreover have "\<forall>acts'. promises (run ?th acts') ! a = promises ?th ! a"
      using settled_stable_run [OF s] by simp
    ultimately
    show "promises (taskResultDispatch (TaskResult uid r') ?th) = promises ?th \<and>
        promises (taskResultDispatch (TaskError uid m') ?th) = promises ?th \<and>
        (\<exists>e. error_events (taskResultDispatch (TaskResult uid r') ?th) = error_events ?th @ [e]) \<and>
        (\<exists>e. error_events (taskResultDispatch (TaskError uid m') ?th) = error_events ?th @ [e]) \<and>
        (\<forall>acts'. promises (run ?th acts') ! a = promises ?th ! a)"
      by blast
  qed
qed

theorem evicted_before_settled_witness:
  "\<exists>th. thread_after Worker None [Init [''f'']] [Invoke ''f'' ''u1'' [], Invoke ''f'' ''u2'' []] = Some th \<and>
     map_of (tasks th) ''u2'' = Some 1 \<and>
     numQueuedTasks th = 2 \<and>
     numQueuedTasks (tasks_delete (taskUID (promises th ! 1)) th) = 1 \<and>
     pstate (promises (tasks_delete (taskUID (promises th ! 1)) th) ! 1) = Pending \<and>
     numQueuedTasks (taskResultDispatch (TaskResult ''u2'' (JSNumber 7)) th) = 1 \<and>
     pstate (promises (taskResultDispatch (TaskResult ''u2'' (JSNumber 7)) th) ! 1) = Fulfilled (JSNumber 7) \<and>
     promises (taskResultDispatch (TaskError ''u2'' ''again'') (taskResultDispatch (TaskResult ''u2'' (JSNumber 7)) th)) =
       promises (taskResultDispatch (TaskResult ''u2'' (JSNumber 7)) th) \<and>
     promises (run (taskResultDispatch (TaskResult ''u2'' (JSNumber 7)) th)
         [Invoke ''f'' ''u2'' [], Deliver (TaskError ''u2'' ''other'')]) ! 1 =
       promises (taskResultDispatch (TaskResult ''u2'' (JSNumber 7)) th) ! 1"
proof -
  obtain th where th: "thread_after Worker None [Init [''f'']] [Invoke ''f'' ''u1'' [], Invoke ''f'' ''u2'' []] = Some th"
    by (simp add: model_defs)
  then have l: "map_of (tasks th) ''u2'' = Some 1" and n: "numQueuedTasks th = 2"
    by (auto simp: model_defs)
  note t = evicted_before_settled [OF th]
  note t1 = t [THEN conjunct1, rule_format, OF l, of "JSNumber 7" "''x''"]
  from t1
  have c1: "numQueuedTasks (tasks_delete (taskUID (promises th ! 1)) th) + 1 = numQueuedTasks th"
    and c2: "pstate (promises (tasks_delete (taskUID (promises th ! 1)) th) ! 1) = Pending"
    and c3: "numQueuedTasks (taskResultDispatch (TaskResult ''u2'' (JSNumber 7)) th) =
      numQueuedTasks (tasks_delete (taskUID (promises th ! 1)) th)"
    and c4: "pstate (promises (taskResultDispatch (TaskResult ''u2'' (JSNumber 7)) th) ! 1) = Fulfilled (JSNumber 7)"
    by blast+
  from c1 n have d1: "numQueuedTasks (tasks_delete (taskUID (promises th ! 1)) th) = 1"
    by simp
  from c3 d1 have d3: "numQueuedTasks (taskResultDispatch (TaskResult ''u2'' (JSNumber 7)) th) = 1"
    by (rule trans)
  note 1 = d1 c2 d3 c4
  have f: "\<exists>r m. TaskResult ''u2'' (JSNumber 7) = TaskResult ''u2'' r \<or>
      TaskResult ''u2'' (JSNumber 7) = TaskError ''u2'' m"
    by simp
  note t3 = t [THEN conjunct2, THEN conjunct2, rule_format, OF l f, of JSUndefined "''again''"]
  from t3
  have 2: "promises (taskResultDispatch (TaskError ''u2'' ''again'') (taskResultDispatch (TaskResult ''u2'' (JSNumber 7)) th)) =
       promises (taskResultDispatch (TaskResult ''u2'' (JSNumber 7)) th)"
    "promises (run (taskResultDispatch (TaskResult ''u2'' (JSNumber 7)) th)
         [Invoke ''f'' ''u2'' [], Deliver (TaskError ''u2'' ''other'')]) ! 1 =
       promises (taskResultDispatch (TaskResult ''u2'' (JSNumber 7)) th) ! 1"
    by blast+
  from th l n 1 2 show ?thesis by blast
qed

section \<open>Termination waits for the tasks pending at the call\<close>

lemma recorded_call_later:
  assumes ok: "thread_ok th"
  shows "thread_ok (run (new_call kind th) acts') \<and>
    length (calls th) < length (calls (run (new_call kind th) acts')) \<and>
    call_kind (calls (run (new_call kind th) acts') ! length (calls th)) = kind \<and>
    snapshot (calls (run (new_call kind th) acts') ! length (calls th)) = map snd (tasks th) \<and>
    call_ok (run (new_call kind th) acts') (calls (run (new_call kind th) acts') ! length (calls th))"
proof -
  let ?th1 = "new_call kind th"
  let ?th' = "run ?th1 acts'"
  let ?k = "length (calls th)"
  have ok': "thread_ok ?th'"
    by (intro thread_ok_run thread_ok_new_call ok)
  have k1: "?k < length (calls ?th1)"
    and c1: "call_kind (calls ?th1 ! ?k) = kind" "snapshot (calls ?th1 ! ?k) = map snd (tasks th)"
    by (simp_all add: calls_new_call)
  from call_extends_run [OF k1, of acts'] c1
  have k': "?k < length (calls ?th')"
    and c': "call_kind (calls ?th' ! ?k) = kind" "snapshot (calls ?th' ! ?k) = map snd (tasks th)"
    by (simp_all add: call_extends_def)
  from ok' k' have "call_ok ?th' (calls ?th' ! ?k)"
    by (simp add: thread_ok_def)
  with ok' k' c' show ?thesis by simp
qed

lemma length_calls_taskResultDispatch:
  "length (calls (taskResultDispatch msg th)) = length (calls th)"
  by (cases msg)
    (simp_all add: dispatchErrorEvent_def task_resolve_def task_reject_def tasks_delete_def
      split: option.splits)

lemma length_calls_terminate_resume:
  "length (calls (terminate_resume j th)) = length (calls th)"
  by (simp add: terminate_resume_def Let_def terminate_effects_fields [unfolded terminate_effects_def]
      split: call_kind.splits)

lemma new_calls_step:
  assumes "j < length (calls (step th act))" "\<not> j < length (calls th)"
    and "\<forall>f. act \<noteq> CallTerminate f"
  shows "\<forall>f. call_kind (calls (step th act) ! j) \<noteq> TerminateCall f"
  using assms
  by (cases act)
    (auto simp: calls_create settled_def resolved_def terminate_def calls_new_call
      nth_append length_calls_taskResultDispatch length_calls_terminate_resume
      split: option.splits ProxyFunction.splits if_splits)

lemma no_terminate_calls_step:
  assumes "\<forall>c \<in> set (calls th). \<forall>f. call_kind c \<noteq> TerminateCall f"
    and "\<forall>f. act \<noteq> CallTerminate f"
  shows "\<forall>c \<in> set (calls (step th act)). \<forall>f. call_kind c \<noteq> TerminateCall f"
proof (intro ballI)
  fix c assume "c \<in> set (calls (step th act))"
  then obtain j where j: "j < length (calls (step th act))" and c: "c = calls (step th act) ! j"
    by (auto simp: in_set_conv_nth)
  show "\<forall>f. call_kind c \<noteq> TerminateCall f"
  proof (cases "j < length (calls th)")
    case True
    from call_extends_step [OF True, of act] assms(1) True show ?thesis
      by (auto simp: c call_extends_def)
  next
    case False
    from new_calls_step [OF j False assms(2)] show ?thesis
      by (simp add: c)
  qed
qed

lemma no_terminate_calls_run:
  assumes "\<forall>c \<in> set (calls th). \<forall>f. call_kind c \<noteq> TerminateCall f"
    and "\<forall>f. CallTerminate f \<notin> set acts"
  shows "\<forall>c \<in> set (calls (run th acts)). \<forall>f. call_kind c \<noteq> TerminateCall f"
  using assms
proof (induction acts arbitrary: th)
  case Nil
  then show ?case by (simp add: run_Nil)
next
  case (Cons act acts)
  from Cons.prems(2) have a: "\<forall>f. act \<noteq> CallTerminate f" and r: "\<forall>f. CallTerminate f \<notin> set acts"
    by auto
  from Cons.IH [OF no_terminate_calls_step [OF Cons.prems(1) a] r] show ?case
    by (simp add: run_Cons)
qed

lemma sole_terminate_step:
  assumes "\<forall>j < length (calls th). (\<exists>f. call_kind (calls th ! j) = TerminateCall f) \<longrightarrow> j = k"
    and "\<forall>f. act \<noteq> CallTerminate f"
  shows "\<forall>j < length (calls (step th act)).
    (\<exists>f. call_kind (calls (step th act) ! j) = TerminateCall f) \<longrightarrow> j = k"
proof (intro allI impI)
  fix j assume j: "j < length (calls (step th act))"
    and t: "\<exists>f. call_kind (calls (step th act) ! j) = TerminateCall f"
  show "j = k"
  proof (cases "j < length (calls th)")
    case True
    from call_extends_step [OF True, of act] t
    have "\<exists>f. call_kind (calls th ! j) = TerminateCall f"
      by (simp add: call_extends_def)
    with assms(1) True show ?thesis by blast
  next
    case False
    from new_calls_step [OF j False assms(2)] t show ?thesis by blast
  qed
qed

lemma sole_terminate_run:
  assumes "\<forall>j < length (calls th). (\<exists>f. call_kind (calls th ! j) = TerminateCall f) \<longrightarrow> j = k"
    and "\<forall>f. CallTerminate f \<notin> set acts"
  shows "\<forall>j < length (calls (run th acts)).
    (\<exists>f. call_kind (calls (run th acts) ! j) = TerminateCall f) \<longrightarrow> j = k"
  using assms
proof (induction acts arbitrary: th)
  case Nil
  then show ?case by (simp add: run_Nil)
next
  case (Cons act acts)
  from Cons.prems(2) have a: "\<forall>f. act \<noteq> CallTerminate f" and r: "\<forall>f. CallTerminate f \<notin> set acts"
    by auto
  from Cons.IH [OF sole_terminate_step [OF Cons.prems(1) a] r] show ?case
    by (simp add: run_Cons)
qed

lemma terminate_effects_worker:
  assumes "worker_class (worker th) \<noteq> ServiceWorker"
  shows "posted (worker (terminate_effects f th)) = posted (worker th) @ [(Terminate f, [])]"
    "TaskResultDispatchListener \<notin> set (listeners (worker (terminate_effects f th)))"
    "channel_closed (worker (terminate_effects f th))"
  using assms
  by (cases "worker_class (worker th)";
      simp add: terminate_effects_def close_channel_def removeEventListener_def
        postMessage_def channel_closed_def)+

lemma channel_touched_resumed:
  assumes ok: "thread_ok th"
    and touched: "channel_closed (worker th) \<or>
      TaskResultDispatchListener \<notin> set (listeners (worker th)) \<or>
      (\<exists>f ts. (Terminate f, ts) \<in> set (posted (worker th)))"
  shows "\<exists>j < length (calls th). resumed (calls th ! j) \<and>
    (\<exists>f. call_kind (calls th ! j) = TerminateCall f) \<and>
    (\<forall>a \<in> set (snapshot (calls th ! j)). is_settled (pstate (promises th ! a)))"
proof -
  from ok have ch: "channel_ok th" by (simp add: thread_ok_def)
  have "\<exists>c \<in> set (calls th). resumed c"
  proof (rule ccontr)
    assume "\<not> (\<exists>c \<in> set (calls th). resumed c)"
    with ch have q: "\<not> channel_closed (worker th)"
      "TaskResultDispatchListener \<in> set (listeners (worker th))"
      "\<forall>p \<in> set (posted (worker th)). is_Run (fst p)"
      by (auto simp: channel_ok_def)
    from q(3) have "\<not> (\<exists>f ts. (Terminate f, ts) \<in> set (posted (worker th)))"
      by (auto simp: is_Run_def)
    with q touched show False by blast
  qed
  then obtain j where j: "j < length (calls th)" and r: "resumed (calls th ! j)"
    by (auto simp: in_set_conv_nth)
  from ok j have c: "call_ok th (calls th ! j)"
    by (simp add: thread_ok_def)
  from call_ok_resumed [OF c r] obtain f
    where f: "call_kind (calls th ! j) = TerminateCall f"
      and ful: "is_fulfilled (awaited (calls th ! j))"
    by blast
  from f have "call_kind (calls th ! j) \<noteq> ResolvedCall" by simp
  from call_ok_allSettled_iff [OF c this] ful
  have "\<forall>a \<in> set (snapshot (calls th ! j)). is_settled (pstate (promises th ! a))"
    by (auto split: if_splits)
  with j r f show ?thesis by blast
qed

text \<open>
  C1, as amended. Let terminate(flag) be called on a spawned thread in any state, and
  consider any later state of the thread. The call itself (its first turn) leaves the
  worker untouched. Its second turn, which sends the Terminate message, detaches the
  result listener and closes the channel, cannot run while a task that was pending at
  the call is unsettled, and has run only if every such task has settled; once they all
  have, the second turn sends Terminate with the flag and no transfer list, detaches the
  listener and closes the channel. Whenever the channel is closed, the listener is
  detached or a Terminate message has been sent, some call of terminate has taken its
  second turn and every task pending at that call has settled; when this call is the
  only call of terminate on the thread, the channel is never closed while a task pending
  at this call is unsettled.
\<close>

theorem terminate_waits_for_pending:
  assumes reach: "thread_after cls threadOptions msgs acts = Some th"
    and later: "th' = run (terminate flag th) acts'"
    and k: "k = length (calls th)"
  shows
    "worker (terminate flag th) = worker th \<and>
     (resumed (calls th' ! k) \<longrightarrow>
        (\<forall>a \<in> snd ` set (tasks th). is_settled (pstate (promises th' ! a)))) \<and>
     ((\<exists>a \<in> snd ` set (tasks th). \<not> is_settled (pstate (promises th' ! a))) \<longrightarrow>
        terminate_resume k th' = th') \<and>
     ((\<forall>a \<in> snd ` set (tasks th). is_settled (pstate (promises th' ! a))) \<and>
      \<not> resumed (calls th' ! k) \<longrightarrow>
        posted (worker (terminate_resume k th')) = posted (worker th') @ [(Terminate flag, [])] \<and>
        TaskResultDispatchListener \<notin> set (listeners (worker (terminate_resume k th'))) \<and>
        channel_closed (worker (terminate_resume k th')) \<and>
        resumed (calls (terminate_resume k th') ! k)) \<and>
     (channel_closed (worker th') \<or>
      TaskResultDispatchListener \<notin> set (listeners (worker th')) \<or>
      (\<exists>f ts. (Terminate f, ts) \<in> set (posted (worker th'))) \<longrightarrow>
        (\<exists>j < length (calls th'). resumed (calls th' ! j) \<and>
           (\<exists>f. call_kind (calls th' ! j) = TerminateCall f) \<and>
           (\<forall>a \<in> set (snapshot (calls th' ! j)). is_settled (pstate (promises th' ! a))))) \<and>
     ((\<forall>f. CallTerminate f \<notin> set acts) \<and> (\<forall>f. CallTerminate f \<notin> set acts') \<longrightarrow>
      channel_closed (worker th') \<or>
      TaskResultDispatchListener \<notin> set (listeners (worker th')) \<or>
      (\<exists>f ts. (Terminate f, ts) \<in> set (posted (worker th'))) \<longrightarrow>
        (\<forall>a \<in> snd ` set (tasks th). is_settled (pstate (promises th' ! a))))"
proof -
  note ok = thread_after_ok [OF reach]
  have th': "th' = run (new_call (TerminateCall flag) th) acts'"
    by (simp add: later terminate_def)
  from recorded_call_later [OF ok, of "TerminateCall flag" acts']
  have ok': "thread_ok th'" and kl: "k < length (calls th')"
    and kind: "call_kind (calls th' ! k) = TerminateCall flag"
    and snap: "set (snapshot (calls th' ! k)) = snd ` set (tasks th)"
    and cok: "call_ok th' (calls th' ! k)"
    by (simp_all add: th' k)
  from kind have nres: "call_kind (calls th' ! k) \<noteq> ResolvedCall" by simp
  note aw = call_ok_allSettled_iff [OF cok nres, unfolded snap]
  have 1: "worker (terminate flag th) = worker th"
    by (simp add: terminate_def new_call_def Let_def)
  have 2: "resumed (calls th' ! k) \<longrightarrow>
        (\<forall>a \<in> snd ` set (tasks th). is_settled (pstate (promises th' ! a)))"
    using call_ok_resumed [OF cok] aw by (auto split: if_splits)
  have 3: "(\<exists>a \<in> snd ` set (tasks th). \<not> is_settled (pstate (promises th' ! a))) \<longrightarrow>
        terminate_resume k th' = th'"
  proof
    assume "\<exists>a \<in> snd ` set (tasks th). \<not> is_settled (pstate (promises th' ! a))"
    with aw have "awaited (calls th' ! k) = Pending" by auto
    then show "terminate_resume k th' = th'"
      by (simp add: terminate_resume_disabled)
  qed
  have 4: "(\<forall>a \<in> snd ` set (tasks th). is_settled (pstate (promises th' ! a))) \<and>
      \<not> resumed (calls th' ! k) \<longrightarrow>
        posted (worker (terminate_resume k th')) = posted (worker th') @ [(Terminate flag, [])] \<and>
        TaskResultDispatchListener \<notin> set (listeners (worker (terminate_resume k th'))) \<and>
        channel_closed (worker (terminate_resume k th')) \<and>
        resumed (calls (terminate_resume k th') ! k)"
  proof
    assume a: "(\<forall>a \<in> snd ` set (tasks th). is_settled (pstate (promises th' ! a))) \<and>
      \<not> resumed (calls th' ! k)"
    with aw have ful: "is_fulfilled (awaited (calls th' ! k))" by simp
    from a have nr: "\<not> resumed (calls th' ! k)" by simp
    note eq = terminate_resume_enabled [OF kl kind ful nr]
    from ok' have w: "worker_class (worker th') \<noteq> ServiceWorker"
      by (simp add: thread_ok_def channel_ok_def)
    show "posted (worker (terminate_resume k th')) = posted (worker th') @ [(Terminate flag, [])] \<and>
        TaskResultDispatchListener \<notin> set (listeners (worker (terminate_resume k th'))) \<and>
        channel_closed (worker (terminate_resume k th')) \<and>
        resumed (calls (terminate_resume k th') ! k)"
      unfolding eq using terminate_effects_worker [OF w, of flag] kl
      by simp
  qed
  have 5: "channel_closed (worker th') \<or>
      TaskResultDispatchListener \<notin> set (listeners (worker th')) \<or>
      (\<exists>f ts. (Terminate f, ts) \<in> set (posted (worker th'))) \<longrightarrow>
        (\<exists>j < length (calls th'). resumed (calls th' ! j) \<and>
           (\<exists>f. call_kind (calls th' ! j) = TerminateCall f) \<and>
           (\<forall>a \<in> set (snapshot (calls th' ! j)). is_settled (pstate (promises th' ! a))))"
    using channel_touched_resumed [OF ok'] by blast
  have 6: "(\<forall>f. CallTerminate f \<notin> set acts) \<and> (\<forall>f. CallTerminate f \<notin> set acts') \<longrightarrow>
      channel_closed (worker th') \<or>
      TaskResultDispatchListener \<notin> set (listeners (worker th')) \<or>
      (\<exists>f ts. (Terminate f, ts) \<in> set (posted (worker th'))) \<longrightarrow>
        (\<forall>a \<in> snd ` set (tasks th). is_settled (pstate (promises th' ! a)))"
  proof (intro impI)
    assume single: "(\<forall>f. CallTerminate f \<notin> set acts) \<and> (\<forall>f. CallTerminate f \<notin> set acts')"
      and touched: "channel_closed (worker th') \<or>
        TaskResultDispatchListener \<notin> set (listeners (worker th')) \<or>
        (\<exists>f ts. (Terminate f, ts) \<in> set (posted (worker th')))"
    from channel_touched_resumed [OF ok' touched] obtain j f
      where j: "j < length (calls th')" and r: "resumed (calls th' ! j)"
        and f: "call_kind (calls th' ! j) = TerminateCall f"
      by blast
    from thread_after_Some [OF reach] obtain ns
      where th: "th = run (handshake_done (new_worker cls) threadOptions ns) acts"
      by blast
    have before: "\<forall>c \<in> set (calls th). \<forall>f. call_kind c \<noteq> TerminateCall f"
      unfolding th
      by (rule no_terminate_calls_run) (simp_all add: handshake_done_fields single)
    have "\<forall>j < length (calls (new_call (TerminateCall flag) th)).
        (\<exists>f. call_kind (calls (new_call (TerminateCall flag) th) ! j) = TerminateCall f) \<longrightarrow> j = k"
      using before by (auto simp: calls_new_call nth_append k)
    from sole_terminate_run [OF this, of acts'] single j f have "j = k"
      unfolding th' by blast
    with r 2 show "\<forall>a \<in> snd ` set (tasks th). is_settled (pstate (promises th' ! a))"
      by simp
  qed
  from 1 2 3 4 5 6 show ?thesis by blast
qed


theorem terminate_waits_for_pending_witness:
  "\<exists>th th' th''.
     thread_after Worker None [Init [''f'']] [Invoke ''f'' ''u1'' []] = Some th \<and>
     th' = run (terminate None th) [] \<and>
     th'' = run (terminate None th)
       [ResumeTerminate 0, Deliver (TaskResult ''u1'' JSUndefined), ResumeTerminate 0] \<and>
     0 = length (calls th) \<and> snd ` set (tasks th) = {0} \<and>
     \<not> is_settled (pstate (promises th' ! 0)) \<and> terminate_resume 0 th' = th' \<and>
     resumed (calls th'' ! 0) \<and> channel_closed (worker th'') \<and>
     is_settled (pstate (promises th'' ! 0))"
proof -
  obtain th where th: "thread_after Worker None [Init [''f'']] [Invoke ''f'' ''u1'' []] = Some th"
    by (simp add: model_defs)
  define th' where "th' = run (terminate None th) []"
  define th'' where "th'' = run (terminate None th)
       [ResumeTerminate 0, Deliver (TaskResult ''u1'' JSUndefined), ResumeTerminate 0]"
  from th have k: "0 = length (calls th)" and s: "snd ` set (tasks th) = {0}"
    by (auto simp: model_defs)
  from th have p: "\<not> is_settled (pstate (promises th' ! 0))"
    by (auto simp: th'_def model_defs is_settled_def)
  from th have r: "resumed (calls th'' ! 0)" and c: "channel_closed (worker th'')"
    by (auto simp: th''_def model_defs)
  from p s have e: "\<exists>a \<in> snd ` set (tasks th). \<not> is_settled (pstate (promises th' ! a))"
    by simp
  from terminate_waits_for_pending [OF th th'_def k, THEN conjunct2, THEN conjunct2,
      THEN conjunct1, rule_format, OF e]
  have 1: "terminate_resume 0 th' = th'" .
  from terminate_waits_for_pending [OF th th''_def k, THEN conjunct2, THEN conjunct1,
      rule_format, OF r, of 0] s
  have 2: "is_settled (pstate (promises th'' ! 0))"
    by simp
  show ?thesis
    by (intro exI [of _ th] exI [of _ th'] exI [of _ th''] conjI)
      (rule th th'_def th''_def k s p r c 1 2)+
qed

text \<open>
  C1 as stated fails when calls of terminate overlap. A task u1 is invoked, terminate()
  is called, a task u2 is invoked, and terminate() is called a second time, with both
  tasks pending (its snapshot holds both handles). The result of u1 arrives and the
  first call continues: it closes the channel while u2, pending at the second call, is
  unsettled. The second call has not continued, and with the listener detached a later
  result for u2 settles nothing.
\<close>

theorem terminate_overlap_counterexample:
  "numQueuedTasks (the (thread_after Worker None [Init [''f'']]
      (take 3 overlapping_terminate))) = 2 \<and>
   call_kind (calls (the (thread_after Worker None [Init [''f'']] overlapping_terminate)) ! 1) =
     TerminateCall None \<and>
   snapshot (calls (the (thread_after Worker None [Init [''f'']] overlapping_terminate)) ! 1) =
     [0, 1] \<and>
   channel_closed (worker (the (thread_after Worker None [Init [''f'']] overlapping_terminate))) \<and>
   pstate (promises (the (thread_after Worker None [Init [''f'']] overlapping_terminate)) ! 1) =
     Pending \<and>
   \<not> resumed (calls (the (thread_after Worker None [Init [''f'']] overlapping_terminate)) ! 1) \<and>
   pstate (promises (the (thread_after Worker None [Init [''f'']]
      (overlapping_terminate @
         [Deliver (TaskResult ''u2'' JSUndefined), ResumeTerminate 1]))) ! 1) = Pending"
  by (simp add: overlapping_terminate_def model_defs)

section \<open>The futures of settled() and resolved()\<close>

text \<open>
  C6. Let settled() or resolved() be called on a spawned thread in any state, and
  consider any later state. The future of settled() is fulfilled exactly when every task
  that was pending at the call has reached a terminal state, whatever the outcomes, is
  pending until then, and is never rejected. The future of resolved() is fulfilled
  exactly when every task pending at the call has been resolved, and rejected exactly
  when one of them has been rejected: while it is pending, the first TaskError for one
  of these tasks rejects it at once with that task's error, even if others are still
  pending, and once rejected it keeps that error.
\<close>

theorem settled_and_resolved_futures:
  assumes reach: "thread_after cls threadOptions msgs acts = Some th"
    and k: "k = length (calls th)"
    and s: "ths = run (settled th) acts'"
    and r: "thr = run (resolved th) acts'"
  shows
    "awaited (calls ths ! k) =
       (if \<forall>a \<in> snd ` set (tasks th). is_settled (pstate (promises ths ! a))
        then Fulfilled JSUndefined else Pending) \<and>
     \<not> is_rejected (awaited (calls ths ! k)) \<and>
     (is_fulfilled (awaited (calls thr ! k)) \<longleftrightarrow>
        (\<forall>a \<in> snd ` set (tasks th). is_fulfilled (pstate (promises thr ! a)))) \<and>
     (is_rejected (awaited (calls thr ! k)) \<longleftrightarrow>
        (\<exists>a \<in> snd ` set (tasks th). is_rejected (pstate (promises thr ! a)))) \<and>
     (\<forall>uid a m. awaited (calls thr ! k) = Pending \<and> map_of (tasks thr) uid = Some a \<and>
        a \<in> snd ` set (tasks th) \<longrightarrow>
        awaited (calls (taskResultDispatch (TaskError uid m) thr) ! k) = Rejected (Error m)) \<and>
     (\<forall>e acts''. awaited (calls thr ! k) = Rejected e \<longrightarrow>
        awaited (calls (run thr acts'') ! k) = Rejected e \<and>
        (\<exists>a \<in> snd ` set (tasks th). pstate (promises thr ! a) = Rejected e))"
proof -
  note ok = thread_after_ok [OF reach]
  from recorded_call_later [OF ok, of SettledCall acts']
  have s_ok: "call_ok ths (calls ths ! k)"
    and s_kind: "call_kind (calls ths ! k) = SettledCall"
    and s_snap: "set (snapshot (calls ths ! k)) = snd ` set (tasks th)"
    by (simp_all add: s k settled_def)
  from s_kind have "call_kind (calls ths ! k) \<noteq> ResolvedCall" by simp
  note 1 = call_ok_allSettled_iff [OF s_ok this, unfolded s_snap]
  from 1 have 2: "\<not> is_rejected (awaited (calls ths ! k))"
    by (simp split: if_splits)
  from recorded_call_later [OF ok, of ResolvedCall acts']
  have r_thread: "thread_ok thr" and r_len: "k < length (calls thr)"
    and r_ok: "call_ok thr (calls thr ! k)"
    and r_kind: "call_kind (calls thr ! k) = ResolvedCall"
    and r_snap: "set (snapshot (calls thr ! k)) = snd ` set (tasks th)"
    by (simp_all add: r k resolved_def)
  note iff = call_ok_all_iff [OF r_ok r_kind, unfolded r_snap]
  have 5: "\<forall>uid a m. awaited (calls thr ! k) = Pending \<and> map_of (tasks thr) uid = Some a \<and>
        a \<in> snd ` set (tasks th) \<longrightarrow>
        awaited (calls (taskResultDispatch (TaskError uid m) thr) ! k) = Rejected (Error m)"
  proof (intro allI impI)
    fix uid a m
    assume h: "awaited (calls thr ! k) = Pending \<and> map_of (tasks thr) uid = Some a \<and>
        a \<in> snd ` set (tasks th)"
    from r_thread have t: "tasks_ok thr" by (simp add: thread_ok_def)
    from h have l: "map_of (tasks thr) uid = Some a" by simp
    from tasks_ok_lookup [OF t l] h call_ok_remaining [OF r_ok] r_snap
    have "a \<in> set (remaining (calls thr ! k))" by simp
    with h r_kind r_len
    show "awaited (calls (taskResultDispatch (TaskError uid m) thr) ! k) = Rejected (Error m)"
      unfolding dispatch_error_state [OF t l]
      by (simp add: notify_rejected_def)
  qed
  have 6: "\<forall>e acts''. awaited (calls thr ! k) = Rejected e \<longrightarrow>
        awaited (calls (run thr acts'') ! k) = Rejected e \<and>
        (\<exists>a \<in> snd ` set (tasks th). pstate (promises thr ! a) = Rejected e)"
  proof (intro allI impI)
    fix e acts'' assume e: "awaited (calls thr ! k) = Rejected e"
    from call_extends_run [OF r_len, of acts''] e
    have "awaited (calls (run thr acts'') ! k) = Rejected e"
      by (simp add: call_extends_def)
    moreover from iff e
    have "\<exists>a \<in> snd ` set (tasks th). pstate (promises thr ! a) = Rejected e"
      by blast
    ultimately show "awaited (calls (run thr acts'') ! k) = Rejected e \<and>
        (\<exists>a \<in> snd ` set (tasks th). pstate (promises thr ! a) = Rejected e)" ..
  qed
  from iff have 3: "is_fulfilled (awaited (calls thr ! k)) \<longleftrightarrow>
        (\<forall>a \<in> snd ` set (tasks th). is_fulfilled (pstate (promises thr ! a)))"
    and 4: "is_rejected (awaited (calls thr ! k)) \<longleftrightarrow>
        (\<exists>a \<in> snd ` set (tasks th). is_rejected (pstate (promises thr ! a)))"
    by blast+
  show ?thesis
    by (intro conjI) (rule 1 2 3 4 5 6)+
qed

theorem settled_and_resolved_futures_witness:
  "\<exists>th ths thr.
     thread_after Worker None [Init [''f'']] [Invoke ''f'' ''u1'' [], Invoke ''f'' ''u2'' []] = Some th \<and>
     0 = length (calls th) \<and>
     ths = run (settled th) [Deliver (TaskError ''u1'' ''bad'')] \<and>
     thr = run (resolved th) [Deliver (TaskError ''u1'' ''bad'')] \<and>
     snd ` set (tasks th) = {0, 1} \<and>
     pstate (promises ths ! 1) = Pending \<and>
     awaited (calls ths ! 0) = Pending \<and>
     awaited (calls thr ! 0) = Rejected (Error ''bad'') \<and>
     is_rejected (pstate (promises thr ! 0)) \<and>
     awaited (calls (run thr [Deliver (TaskResult ''u2'' JSUndefined)]) ! 0) = Rejected (Error ''bad'')"
proof -
  obtain th where th: "thread_after Worker None [Init [''f'']] [Invoke ''f'' ''u1'' [], Invoke ''f'' ''u2'' []] = Some th"
    by (simp add: model_defs)
  define ths where "ths = run (settled th) [Deliver (TaskError ''u1'' ''bad'')]"
  define thr where "thr = run (resolved th) [Deliver (TaskError ''u1'' ''bad'')]"
  from th have k: "0 = length (calls th)" and sn: "snd ` set (tasks th) = {0, 1}"
    by (auto simp: model_defs)
  from th have p: "pstate (promises ths ! 1) = Pending"
    and rj: "is_rejected (pstate (promises thr ! 0))"
    and aw: "awaited (calls thr ! 0) = Rejected (Error ''bad'')"
    by (auto simp: ths_def thr_def model_defs)
  note t = settled_and_resolved_futures [OF th k ths_def thr_def]
  from p sn have "\<not> (\<forall>a \<in> snd ` set (tasks th). is_settled (pstate (promises ths ! a)))"
    by (simp add: is_settled_def)
  with t [THEN conjunct1] have 1: "awaited (calls ths ! 0) = Pending"
    by simp
  from t [THEN conjunct2, THEN conjunct2, THEN conjunct2, THEN conjunct2, THEN conjunct2,
      rule_format, OF aw, of "[Deliver (TaskResult ''u2'' JSUndefined)]"]
  have 2: "awaited (calls (run thr [Deliver (TaskResult ''u2'' JSUndefined)]) ! 0) = Rejected (Error ''bad'')"
    by (rule conjunct1)
  show ?thesis
    by (intro exI [of _ th] exI [of _ ths] exI [of _ thr] conjI)
      (rule th k ths_def thr_def sn p 1 aw rj 2)+
qed

section \<open>The pool: load balancing\<close>

lemma least_loaded_None: "least_loaded ts = None \<longleftrightarrow> ts = []"
  by (cases ts) (auto split: option.splits)

lemma least_loaded_Some:
  assumes "least_loaded ts = Some i"
  shows "i < length ts \<and>
    (\<forall>j < length ts. numQueuedTasks (ts ! i) \<le> numQueuedTasks (ts ! j)) \<and>
    (\<forall>j < i. numQueuedTasks (ts ! i) < numQueuedTasks (ts ! j))"
  using assms
proof (induction ts arbitrary: i)
  case Nil
  then show ?case by simp
next
  case (Cons t ts)
  show ?case
  proof (cases "least_loaded ts")
    case None
    then have "ts = []" by (simp add: least_loaded_None)
    with Cons.prems None show ?thesis by simp
  next
    case (Some m)
    note ih = Cons.IH [OF Some]
    show ?thesis
    proof (cases "numQueuedTasks t \<le> numQueuedTasks (ts ! m)")
      case True
      with Cons.prems Some have i: "i = 0" by simp
      have "\<forall>j < length (t # ts). numQueuedTasks t \<le> numQueuedTasks ((t # ts) ! j)"
      proof (intro allI impI)
        fix j assume "j < length (t # ts)"
        then show "numQueuedTasks t \<le> numQueuedTasks ((t # ts) ! j)"
          using ih True by (cases j) (auto intro: order_trans)
      qed
      with i show ?thesis by simp
    next
      case False
      with Cons.prems Some have i: "i = Suc m" by simp
      have a: "\<forall>j < length (t # ts). numQueuedTasks (ts ! m) \<le> numQueuedTasks ((t # ts) ! j)"
      proof (intro allI impI)
        fix j assume "j < length (t # ts)"
        then show "numQueuedTasks (ts ! m) \<le> numQueuedTasks ((t # ts) ! j)"
          using ih False by (cases j) auto
      qed
      have b: "\<forall>j < Suc m. numQueuedTasks (ts ! m) < numQueuedTasks ((t # ts) ! j)"
      proof (intro allI impI)
        fix j assume "j < Suc m"
        then show "numQueuedTasks (ts ! m) < numQueuedTasks ((t # ts) ! j)"
          using ih False by (cases j) auto
      qed
      from ih a b show ?thesis by (simp add: i)
    qed
  qed
qed

lemma least_loaded_first_idle:
  assumes busy: "\<forall>x \<in> set pre. 0 < numQueuedTasks x" and idle: "numQueuedTasks t = 0"
  shows "least_loaded (pre @ t # post) = Some (length pre)"
proof -
  obtain i where i: "least_loaded (pre @ t # post) = Some i"
    by (cases "least_loaded (pre @ t # post)") (simp_all add: least_loaded_None)
  note c = least_loaded_Some [OF i]
  from c [THEN conjunct2, THEN conjunct1, rule_format, of "length pre"]
  have "numQueuedTasks ((pre @ t # post) ! i) \<le> numQueuedTasks ((pre @ t # post) ! length pre)"
    by simp
  with idle have z: "numQueuedTasks ((pre @ t # post) ! i) = 0" by simp
  have "\<not> i < length pre"
  proof
    assume l: "i < length pre"
    then have "pre ! i \<in> set pre" by (rule nth_mem)
    with busy have "0 < numQueuedTasks (pre ! i)" by blast
    with z l show False by (simp add: nth_append)
  qed
  moreover have "\<not> length pre < i"
  proof
    assume "length pre < i"
    with c have "numQueuedTasks ((pre @ t # post) ! i) < numQueuedTasks ((pre @ t # post) ! length pre)"
      by blast
    with idle show False by simp
  qed
  ultimately have "i = length pre" by simp
  with i show ?thesis by simp
qed

lemma queue_all_idle:
  assumes "threads p = pre @ post"
    and "\<forall>x \<in> set pre. 0 < numQueuedTasks x"
    and "\<forall>t \<in> set post. numQueuedTasks t = 0"
    and "\<forall>c \<in> set cbs. \<forall>t \<in> set post. 0 < numQueuedTasks (run t c)"
    and "length cbs \<le> length post"
  shows "fst (queue_all cbs p) = map Some [length pre ..< length pre + length cbs]"
  using assms
proof (induction cbs arbitrary: p pre post)
  case Nil
  then show ?case by simp
next
  case (Cons cb cbs)
  from Cons.prems(5) obtain t post' where post: "post = t # post'"
    by (cases post) auto
  from Cons.prems(3) post have idle: "numQueuedTasks t = 0" by simp
  have sel: "least_loaded (threads p) = Some (length pre)"
    unfolding Cons.prems(1) post
    by (rule least_loaded_first_idle [OF Cons.prems(2) idle])
  let ?p1 = "p\<lparr>threads := (threads p)[length pre := run (threads p ! length pre) cb]\<rparr>"
  have q: "queue cb p = (Some (length pre), ?p1)"
    by (simp add: queue_def sel)
  have th1: "threads ?p1 = (pre @ [run t cb]) @ post'"
    by (simp add: Cons.prems(1) post)
  have busy1: "\<forall>x \<in> set (pre @ [run t cb]). 0 < numQueuedTasks x"
    using Cons.prems(2,4) post by auto
  have ih: "fst (queue_all cbs ?p1) =
      map Some [length (pre @ [run t cb]) ..< length (pre @ [run t cb]) + length cbs]"
    by (rule Cons.IH [OF th1 busy1]) (use Cons.prems post in auto)
  have r: "fst (queue_all (cb # cbs) p) = Some (length pre) # fst (queue_all cbs ?p1)"
    by (simp add: q split: prod.splits)
  have u: "[length pre ..< length pre + length (cb # cbs)] =
      length pre # [length (pre @ [run t cb]) ..< length (pre @ [run t cb]) + length cbs]"
    using upt_conv_Cons [of "length pre" "length pre + Suc (length cbs)"] by simp
  show ?case
    by (simp only: r ih u list.map)
qed

text \<open>
  C5. For every call of pool.queue(cb), the pool selects the member with the fewest
  currently pending tasks, the lowest spawn index among those with the fewest, and
  within the call runs the callback on that member; a pool with a member always selects
  one. Consequently, for callbacks that submit a task (they leave an idle thread with a
  pending task): if at least two members are idle, two consecutive calls of queue land
  on two different members; and with all members idle, size consecutive calls land on
  the members 0, 1, ..., size - 1 in this order, which are size distinct members.
\<close>

theorem queue_selects_least_loaded:
  "(\<forall>i p'. queue cb p = (Some i, p') \<longrightarrow>
      i < length (threads p) \<and>
      (\<forall>j < length (threads p).
         numQueuedTasks (threads p ! i) \<le> numQueuedTasks (threads p ! j)) \<and>
      (\<forall>j < i. numQueuedTasks (threads p ! i) < numQueuedTasks (threads p ! j)) \<and>
      threads p' = (threads p)[i := run (threads p ! i) cb]) \<and>
   (threads p \<noteq> [] \<longrightarrow> (\<exists>i. fst (queue cb p) = Some i)) \<and>
   ((\<exists>i j. i < length (threads p) \<and> j < length (threads p) \<and> i \<noteq> j \<and>
       numQueuedTasks (threads p ! i) = 0 \<and> numQueuedTasks (threads p ! j) = 0) \<and>
    (\<forall>t \<in> set (threads p). numQueuedTasks t = 0 \<longrightarrow> 0 < numQueuedTasks (run t cb)) \<longrightarrow>
      (\<exists>i1 i2. fst (queue cb p) = Some i1 \<and> fst (queue cb2 (snd (queue cb p))) = Some i2 \<and>
         i1 \<noteq> i2)) \<and>
   ((\<forall>t \<in> set (threads p). numQueuedTasks t = 0) \<and> length cbs = length (threads p) \<and>
    (\<forall>c \<in> set cbs. \<forall>t \<in> set (threads p). 0 < numQueuedTasks (run t c)) \<longrightarrow>
      fst (queue_all cbs p) = map Some [0 ..< length (threads p)] \<and>
      distinct (fst (queue_all cbs p)))"
proof (intro conjI)
  show "\<forall>i p'. queue cb p = (Some i, p') \<longrightarrow>
      i < length (threads p) \<and>
      (\<forall>j < length (threads p).
         numQueuedTasks (threads p ! i) \<le> numQueuedTasks (threads p ! j)) \<and>
      (\<forall>j < i. numQueuedTasks (threads p ! i) < numQueuedTasks (threads p ! j)) \<and>
      threads p' = (threads p)[i := run (threads p ! i) cb]"
  proof (intro allI impI)
    fix i p' assume q: "queue cb p = (Some i, p')"
    then have l: "least_loaded (threads p) = Some i"
      and p': "p' = p\<lparr>threads := (threads p)[i := run (threads p ! i) cb]\<rparr>"
      by (auto simp: queue_def split: option.splits)
    from least_loaded_Some [OF l] p'
    show "i < length (threads p) \<and>
      (\<forall>j < length (threads p).
         numQueuedTasks (threads p ! i) \<le> numQueuedTasks (threads p ! j)) \<and>
      (\<forall>j < i. numQueuedTasks (threads p ! i) < numQueuedTasks (threads p ! j)) \<and>
      threads p' = (threads p)[i := run (threads p ! i) cb]"
      by simp
  qed
  show "threads p \<noteq> [] \<longrightarrow> (\<exists>i. fst (queue cb p) = Some i)"
    by (cases "least_loaded (threads p)") (simp_all add: queue_def least_loaded_None)
  show "(\<exists>i j. i < length (threads p) \<and> j < length (threads p) \<and> i \<noteq> j \<and>
       numQueuedTasks (threads p ! i) = 0 \<and> numQueuedTasks (threads p ! j) = 0) \<and>
    (\<forall>t \<in> set (threads p). numQueuedTasks t = 0 \<longrightarrow> 0 < numQueuedTasks (run t cb)) \<longrightarrow>
      (\<exists>i1 i2. fst (queue cb p) = Some i1 \<and> fst (queue cb2 (snd (queue cb p))) = Some i2 \<and>
         i1 \<noteq> i2)"
  proof (intro impI, elim conjE exE)
    fix i j
    assume i: "i < length (threads p)" and j: "j < length (threads p)" and ne: "i \<noteq> j"
      and zi: "numQueuedTasks (threads p ! i) = 0" and zj: "numQueuedTasks (threads p ! j) = 0"
      and cb: "\<forall>t \<in> set (threads p). numQueuedTasks t = 0 \<longrightarrow> 0 < numQueuedTasks (run t cb)"
    from i obtain i1 where l1: "least_loaded (threads p) = Some i1"
      by (cases "least_loaded (threads p)") (auto simp: least_loaded_None)
    note c1 = least_loaded_Some [OF l1]
    from c1 i zi have z1: "numQueuedTasks (threads p ! i1) = 0"
      by (metis le_zero_eq)
    let ?ts = "(threads p)[i1 := run (threads p ! i1) cb]"
    have q1: "queue cb p = (Some i1, p\<lparr>threads := ?ts\<rparr>)"
      by (simp add: queue_def l1)
    from cb z1 c1 have busy: "0 < numQueuedTasks (?ts ! i1)"
      by simp
    obtain m where m: "m < length ?ts" "m \<noteq> i1" "numQueuedTasks (?ts ! m) = 0"
    proof (cases "i = i1")
      case True
      with ne j zj that [of j] show ?thesis by simp
    next
      case False
      with i zi that [of i] show ?thesis by simp
    qed
    from m obtain i2 where l2: "least_loaded ?ts = Some i2"
      by (cases "least_loaded ?ts") (auto simp: least_loaded_None)
    from least_loaded_Some [OF l2] m have "numQueuedTasks (?ts ! i2) = 0"
      by (metis le_zero_eq)
    with busy have "i1 \<noteq> i2" by auto
    moreover have "fst (queue cb2 (snd (queue cb p))) = Some i2"
      unfolding q1 by (simp add: queue_def l2)
    ultimately
    show "\<exists>i1 i2. fst (queue cb p) = Some i1 \<and> fst (queue cb2 (snd (queue cb p))) = Some i2 \<and>
         i1 \<noteq> i2"
      using q1 by auto
  qed
  show "(\<forall>t \<in> set (threads p). numQueuedTasks t = 0) \<and> length cbs = length (threads p) \<and>
    (\<forall>c \<in> set cbs. \<forall>t \<in> set (threads p). 0 < numQueuedTasks (run t c)) \<longrightarrow>
      fst (queue_all cbs p) = map Some [0 ..< length (threads p)] \<and>
      distinct (fst (queue_all cbs p))"
  proof
    assume a: "(\<forall>t \<in> set (threads p). numQueuedTasks t = 0) \<and> length cbs = length (threads p) \<and>
      (\<forall>c \<in> set cbs. \<forall>t \<in> set (threads p). 0 < numQueuedTasks (run t c))"
    have "fst (queue_all cbs p) = map Some [length ([] :: EsThread list) ..<
        length ([] :: EsThread list) + length cbs]"
      by (rule queue_all_idle [of p "[]" "threads p"]) (use a in simp_all)
    with a have e: "fst (queue_all cbs p) = map Some [0 ..< length (threads p)]"
      by simp
    then show "fst (queue_all cbs p) = map Some [0 ..< length (threads p)] \<and>
      distinct (fst (queue_all cbs p))"
      by (simp add: distinct_map)
  qed
qed

lemmas pool_defs =
  pool_after_def pool_run_def queue_def pool_settled_def pool_terminate_def
  member_future_def pool_future_def

theorem queue_selects_least_loaded_witness:
  "\<exists>p. pool_after [(Worker, None, [Init [''takesTime'']]), (Worker, None, [Init [''takesTime'']])] [] =
       Some p \<and>
     length (threads p) = 2 \<and>
     fst (queue_all [[Invoke ''takesTime'' ''a'' [JSNumber 250]],
                     [Invoke ''takesTime'' ''b'' [JSNumber 250]]] p) = [Some 0, Some 1] \<and>
     (\<exists>i1 i2. fst (queue [Invoke ''takesTime'' ''a'' [JSNumber 250]] p) = Some i1 \<and>
        fst (queue [Invoke ''takesTime'' ''b'' [JSNumber 250]]
               (snd (queue [Invoke ''takesTime'' ''a'' [JSNumber 250]] p))) = Some i2 \<and>
        i1 \<noteq> i2)"
proof -
  let ?a = "[Invoke ''takesTime'' ''a'' [JSNumber 250]]"
  let ?b = "[Invoke ''takesTime'' ''b'' [JSNumber 250]]"
  obtain p where p: "pool_after [(Worker, None, [Init [''takesTime'']]), (Worker, None, [Init [''takesTime'']])] [] =
       Some p"
    by (simp add: pool_defs model_defs)
  then have n: "length (threads p) = 2"
    and idle: "\<forall>t \<in> set (threads p). numQueuedTasks t = 0"
    and cba: "\<forall>t \<in> set (threads p). numQueuedTasks t = 0 \<longrightarrow> 0 < numQueuedTasks (run t ?a)"
    and cbs: "\<forall>c \<in> set [?a, ?b]. \<forall>t \<in> set (threads p). 0 < numQueuedTasks (run t c)"
    by (auto simp: pool_defs model_defs)
  from idle n have two: "\<exists>i j. i < length (threads p) \<and> j < length (threads p) \<and> i \<noteq> j \<and>
       numQueuedTasks (threads p ! i) = 0 \<and> numQueuedTasks (threads p ! j) = 0"
    by (intro exI [of _ 0] exI [of _ 1]) simp
  note t = queue_selects_least_loaded [of ?a p ?b "[?a, ?b]"]
  from t [THEN conjunct2, THEN conjunct2, THEN conjunct1, rule_format, OF conjI [OF two cba]]
  have 1: "\<exists>i1 i2. fst (queue ?a p) = Some i1 \<and> fst (queue ?b (snd (queue ?a p))) = Some i2 \<and> i1 \<noteq> i2" .
  have "length [?a, ?b] = length (threads p)"
    using n by simp
  from t [THEN conjunct2, THEN conjunct2, THEN conjunct2, rule_format,
      OF conjI [OF idle conjI [OF this cbs]]] n
  have 2: "fst (queue_all [?a, ?b] p) = [Some 0, Some 1]"
    by (simp add: upt_rec)
  from p n 1 2 show ?thesis by blast
qed

section \<open>The pool: members over time\<close>

lemma pool_run_Nil: "pool_run p [] = p"
  by (simp add: pool_run_def)

lemma pool_run_Cons: "pool_run p (x # xs) = pool_run (pool_step p x) xs"
  by (simp add: pool_run_def)

lemma length_threads_queue: "length (threads (snd (queue cb p))) = length (threads p)"
  by (simp add: queue_def split: option.splits)

lemma length_threads_step: "length (threads (pool_step p x)) = length (threads p)"
  by (cases x) (simp_all add: length_threads_queue pool_settled_def pool_terminate_def)

lemma length_threads_run: "length (threads (pool_run p xs)) = length (threads p)"
  by (induction xs arbitrary: p) (simp_all add: pool_run_Nil pool_run_Cons length_threads_step)

lemma pool_calls_step:
  "k < length (pool_calls p) \<Longrightarrow>
     k < length (pool_calls (pool_step p x)) \<and> pool_calls (pool_step p x) ! k = pool_calls p ! k"
  by (cases x)
    (auto simp: queue_def pool_settled_def pool_terminate_def nth_append split: option.splits)

lemma pool_calls_run:
  "k < length (pool_calls p) \<Longrightarrow>
     k < length (pool_calls (pool_run p xs)) \<and> pool_calls (pool_run p xs) ! k = pool_calls p ! k"
proof (induction xs arbitrary: p)
  case Nil
  then show ?case by (simp add: pool_run_Nil)
next
  case (Cons x xs)
  from pool_calls_step [OF Cons.prems, of x] Cons.IH [of "pool_step p x"]
  show ?case by (simp add: pool_run_Cons)
qed

text \<open>Every member of the pool follows a run of the thread of its own.\<close>

lemma member_step:
  assumes "i < length (threads p)"
  shows "\<exists>acts. threads (pool_step p x) ! i = run (threads p ! i) acts \<and>
    (\<not> submits x \<longrightarrow> (\<forall>a \<in> set acts. \<not> is_Invoke a))"
proof (cases x)
  case (Queue cb)
  show ?thesis
  proof (cases "least_loaded (threads p) = Some i")
    case True
    with Queue assms show ?thesis
      by (intro exI [of _ cb]) (simp add: queue_def)
  next
    case False
    with Queue assms show ?thesis
      by (intro exI [of _ "[]"]) (auto simp: queue_def run_Nil split: option.splits)
  qed
next
  case PoolSettled
  with assms show ?thesis
    by (intro exI [of _ "[CallSettled]"]) (simp add: pool_settled_def run_def is_Invoke_def)
next
  case PoolTerminate
  with assms show ?thesis
    by (intro exI [of _ "[CallTerminate None]"]) (simp add: pool_terminate_def run_def is_Invoke_def)
next
  case (OnThread j act)
  show ?thesis
  proof (cases "j = i")
    case True
    with OnThread assms show ?thesis
      by (intro exI [of _ "[act]"]) (simp add: run_def)
  next
    case False
    with OnThread assms show ?thesis
      by (intro exI [of _ "[]"]) (simp add: run_Nil)
  qed
qed

lemma member_run:
  assumes "i < length (threads p)"
  shows "\<exists>acts. threads (pool_run p xs) ! i = run (threads p ! i) acts \<and>
    ((\<forall>x \<in> set xs. \<not> submits x) \<longrightarrow> (\<forall>a \<in> set acts. \<not> is_Invoke a))"
  using assms
proof (induction xs arbitrary: p)
  case Nil
  then show ?case
    by (intro exI [of _ "[]"]) (simp add: pool_run_Nil run_Nil)
next
  case (Cons x xs)
  from member_step [OF Cons.prems, of x] obtain acts1
    where 1: "threads (pool_step p x) ! i = run (threads p ! i) acts1"
      "\<not> submits x \<longrightarrow> (\<forall>a \<in> set acts1. \<not> is_Invoke a)"
    by blast
  from Cons.prems have "i < length (threads (pool_step p x))"
    by (simp add: length_threads_step)
  from Cons.IH [OF this] obtain acts2
    where 2: "threads (pool_run (pool_step p x) xs) ! i = run (threads (pool_step p x) ! i) acts2"
      "(\<forall>x \<in> set xs. \<not> submits x) \<longrightarrow> (\<forall>a \<in> set acts2. \<not> is_Invoke a)"
    by blast
  show ?case
    using 1 2
    by (intro exI [of _ "acts1 @ acts2"]) (auto simp: pool_run_Cons run_append)
qed

lemma spawn_members_ok:
  assumes "spawn_members specs = Some ts"
  shows "\<forall>t \<in> set ts. thread_ok t"
  using assms
proof (induction specs arbitrary: ts)
  case Nil
  then show ?case by simp
next
  case (Cons spec specs)
  obtain cls topt msgs where spec: "spec = (cls, topt, msgs)"
    by (cases spec)
  from Cons.prems obtain t ts' where s: "Spawn (new_worker cls) topt msgs = SpawnResolved t"
    and r: "spawn_members specs = Some ts'" and ts: "ts = t # ts'"
    by (auto simp: spec split: spawn_result.splits option.splits)
  from s have "thread_after cls topt msgs [] = Some t"
    by (simp add: thread_after_def run_Nil)
  from thread_after_ok [OF this] Cons.IH [OF r] ts show ?case by simp
qed

lemma pool_after_members_ok:
  assumes "pool_after specs pacts = Some p" "i < length (threads p)"
  shows "thread_ok (threads p ! i)"
proof -
  from assms(1) obtain ts where ts: "spawn_members specs = Some ts"
    and p: "p = pool_run \<lparr>threads = ts, pool_calls = []\<rparr> pacts"
    by (auto simp: pool_after_def split: option.splits)
  from assms(2) have i: "i < length ts"
    by (simp add: p length_threads_run)
  from member_run [of i "\<lparr>threads = ts, pool_calls = []\<rparr>" pacts] i obtain acts
    where "threads p ! i = run (ts ! i) acts"
    by (auto simp: p)
  moreover from spawn_members_ok [OF ts] i have "thread_ok (ts ! i)" by simp
  ultimately show ?thesis by (simp add: thread_ok_run)
qed

text \<open>Without a new invocation, the pending mapping of a thread only loses entries.\<close>

lemma tasks_taskResultDispatch_subset:
  "set (tasks (taskResultDispatch msg th)) \<subseteq> set (tasks th)"
  by (cases msg)
    (auto simp: dispatchErrorEvent_def tasks_task_resolve tasks_task_reject tasks_delete_def
      AList.delete_eq split: option.splits)

lemma tasks_step_subset:
  assumes "\<not> is_Invoke act"
  shows "set (tasks (step th act)) \<subseteq> set (tasks th)"
proof (cases act)
  case (Deliver msg)
  with tasks_taskResultDispatch_subset [of msg th] show ?thesis by simp
next
  case (ResumeTerminate k)
  then show ?thesis
    by (simp add: terminate_resume_def Let_def
        terminate_effects_fields [unfolded terminate_effects_def] split: call_kind.splits)
qed (insert assms, simp_all add: is_Invoke_def settled_def resolved_def terminate_def
    new_call_def Let_def)

lemma tasks_run_subset:
  assumes "\<forall>a \<in> set acts. \<not> is_Invoke a"
  shows "set (tasks (run th acts)) \<subseteq> set (tasks th)"
  using assms
proof (induction acts arbitrary: th)
  case Nil
  then show ?case by (simp add: run_Nil)
next
  case (Cons act acts)
  from Cons.prems have "\<not> is_Invoke act" "\<forall>a \<in> set acts. \<not> is_Invoke a" by simp_all
  from tasks_step_subset [OF this(1), of th] Cons.IH [OF this(2), of "step th act"]
  show ?case by (auto simp: run_Cons)
qed

section \<open>The pool: draining and termination\<close>

lemma member_after_call:
  assumes reach: "pool_after specs pacts = Some p" and i: "i < length (threads p)"
    and p1: "threads p1 = map (new_call kind) (threads p)"
  shows "\<exists>acts. threads (pool_run p1 xs) ! i = run (new_call kind (threads p ! i)) acts \<and>
    ((\<forall>x \<in> set xs. \<not> submits x) \<longrightarrow> (\<forall>a \<in> set acts. \<not> is_Invoke a))"
proof -
  from i p1 have "i < length (threads p1)" by simp
  from member_run [OF this, of xs] i p1 show ?thesis by simp
qed

lemma member_settled_later:
  assumes reach: "pool_after specs pacts = Some p" and i: "i < length (threads p)"
    and p1: "threads p1 = map (new_call kind) (threads p)" and kind: "kind \<noteq> ResolvedCall"
  shows "thread_ok (threads (pool_run p1 xs) ! i) \<and>
    length (calls (threads p ! i)) < length (calls (threads (pool_run p1 xs) ! i)) \<and>
    call_kind (calls (threads (pool_run p1 xs) ! i) ! length (calls (threads p ! i))) = kind \<and>
    awaited (calls (threads (pool_run p1 xs) ! i) ! length (calls (threads p ! i))) =
      (if \<forall>a \<in> snd ` set (tasks (threads p ! i)).
            is_settled (pstate (promises (threads (pool_run p1 xs) ! i) ! a))
       then Fulfilled JSUndefined else Pending) \<and>
    (resumed (calls (threads (pool_run p1 xs) ! i) ! length (calls (threads p ! i))) \<longrightarrow>
       (\<forall>a \<in> snd ` set (tasks (threads p ! i)).
          is_settled (pstate (promises (threads (pool_run p1 xs) ! i) ! a)))) \<and>
    ((\<forall>x \<in> set xs. \<not> submits x) \<longrightarrow>
       set (tasks (threads (pool_run p1 xs) ! i)) \<subseteq> set (tasks (threads p ! i)))"
proof -
  let ?t = "threads p ! i"
  let ?t' = "threads (pool_run p1 xs) ! i"
  note ok = pool_after_members_ok [OF reach i]
  from member_after_call [OF reach i p1, of xs] obtain acts
    where t': "?t' = run (new_call kind ?t) acts"
      and inv: "(\<forall>x \<in> set xs. \<not> submits x) \<longrightarrow> (\<forall>a \<in> set acts. \<not> is_Invoke a)"
    by blast
  from recorded_call_later [OF ok, of kind acts]
  have ok': "thread_ok ?t'" and len: "length (calls ?t) < length (calls ?t')"
    and k: "call_kind (calls ?t' ! length (calls ?t)) = kind"
    and snap: "set (snapshot (calls ?t' ! length (calls ?t))) = snd ` set (tasks ?t)"
    and cok: "call_ok ?t' (calls ?t' ! length (calls ?t))"
    by (simp_all add: t')
  from k kind have nres: "call_kind (calls ?t' ! length (calls ?t)) \<noteq> ResolvedCall" by simp
  note aw = call_ok_allSettled_iff [OF cok nres, unfolded snap]
  have res: "resumed (calls ?t' ! length (calls ?t)) \<longrightarrow>
       (\<forall>a \<in> snd ` set (tasks ?t). is_settled (pstate (promises ?t' ! a)))"
    using call_ok_resumed [OF cok] aw by (auto split: if_splits)
  have sub: "(\<forall>x \<in> set xs. \<not> submits x) \<longrightarrow> set (tasks ?t') \<subseteq> set (tasks ?t)"
  proof
    assume "\<forall>x \<in> set xs. \<not> submits x"
    with inv have "\<forall>a \<in> set acts. \<not> is_Invoke a" by simp
    from tasks_run_subset [OF this, of "new_call kind ?t"]
    show "set (tasks ?t') \<subseteq> set (tasks ?t)"
      by (simp add: t' new_call_def Let_def)
  qed
  from ok' len k aw res sub show ?thesis by blast
qed

lemma quiet_drained_is_idle:
  assumes ok: "thread_ok t'" and sub: "set (tasks t') \<subseteq> set (tasks t)"
    and drained: "\<forall>a \<in> snd ` set (tasks t). is_settled (pstate (promises t' ! a))"
  shows "numQueuedTasks t' = 0"
proof -
  have "tasks t' = []"
  proof (rule ccontr)
    assume "tasks t' \<noteq> []"
    then obtain u a where ua: "(u, a) \<in> set (tasks t')"
      by (cases "tasks t'") auto
    then have "a \<in> set (map snd (tasks t'))" by force
    from tasks_ok_values [OF _ this] ok have "pstate (promises t' ! a) = Pending"
      by (simp add: thread_ok_def)
    moreover from ua sub drained have "is_settled (pstate (promises t' ! a))" by force
    ultimately show False by (simp add: is_settled_def)
  qed
  then show ?thesis by (simp add: numQueuedTasks_def)
qed

lemma pool_future_later:
  assumes p1: "pool_calls p1 = pool_calls p @
      [\<lparr>pool_call_kind = kind, member_calls = map (\<lambda>t. length (calls t)) (threads p)\<rparr>]"
    and n: "length (threads p1) = length (threads p)"
  shows "pool_future (pool_run p1 xs) (length (pool_calls p)) = Fulfilled JSUndefined \<longleftrightarrow>
    (\<forall>i < length (threads p).
       is_fulfilled (member_future kind
         (calls (threads (pool_run p1 xs) ! i) ! length (calls (threads p ! i)))))"
proof -
  have "length (pool_calls p) < length (pool_calls p1)"
    by (simp add: p1)
  from pool_calls_run [OF this, of xs]
  have c: "pool_calls (pool_run p1 xs) ! length (pool_calls p) =
      \<lparr>pool_call_kind = kind, member_calls = map (\<lambda>t. length (calls t)) (threads p)\<rparr>"
    by (simp add: p1)
  show ?thesis
    by (simp add: pool_future_def c list_all2_conv_all_nth length_threads_run n)
qed

text \<open>
  C8, as amended. For every pool, pool.settled() resolves exactly when every member's
  settled() has resolved, that is exactly when every task that was pending on a member
  when pool.settled() was called has settled; if no task is submitted after the call,
  every member's pending count is 0 by then. pool.terminate() calls every member's
  terminate(), so the channel of a member closes only after the tasks that were pending
  on that member at a call of terminate have settled.
\<close>

theorem pool_drains_members:
  assumes reach: "pool_after specs pacts = Some p"
    and k: "k = length (pool_calls p)"
    and s: "ps = pool_run (pool_settled p) pacts'"
    and t: "pt = pool_run (pool_terminate p) pacts'"
  shows
    "threads (pool_settled p) = map settled (threads p) \<and>
     (pool_future ps k = Fulfilled JSUndefined \<longleftrightarrow>
        (\<forall>i < length (threads p).
           is_fulfilled (awaited (calls (threads ps ! i) ! length (calls (threads p ! i)))))) \<and>
     (pool_future ps k = Fulfilled JSUndefined \<longleftrightarrow>
        (\<forall>i < length (threads p). \<forall>a \<in> snd ` set (tasks (threads p ! i)).
           is_settled (pstate (promises (threads ps ! i) ! a)))) \<and>
     ((\<forall>x \<in> set pacts'. \<not> submits x) \<and> pool_future ps k = Fulfilled JSUndefined \<longrightarrow>
        (\<forall>i < length (threads p). numQueuedTasks (threads ps ! i) = 0)) \<and>
     threads (pool_terminate p) = map (terminate None) (threads p) \<and>
     (\<forall>i < length (threads p).
        (resumed (calls (threads pt ! i) ! length (calls (threads p ! i))) \<longrightarrow>
           (\<forall>a \<in> snd ` set (tasks (threads p ! i)).
              is_settled (pstate (promises (threads pt ! i) ! a)))) \<and>
        (channel_closed (worker (threads pt ! i)) \<longrightarrow>
           (\<exists>j < length (calls (threads pt ! i)). resumed (calls (threads pt ! i) ! j) \<and>
              (\<forall>a \<in> set (snapshot (calls (threads pt ! i) ! j)).
                 is_settled (pstate (promises (threads pt ! i) ! a))))))"
proof -
  have ts: "threads (pool_settled p) = map (new_call SettledCall) (threads p)"
    by (simp add: pool_settled_def settled_def [abs_def])
  have tt: "threads (pool_terminate p) = map (new_call (TerminateCall None)) (threads p)"
    by (simp add: pool_terminate_def terminate_def [abs_def])
  have 1: "threads (pool_settled p) = map settled (threads p)"
    by (simp add: pool_settled_def)
  have 5: "threads (pool_terminate p) = map (terminate None) (threads p)"
    by (simp add: pool_terminate_def)
  have fut: "pool_future ps k = Fulfilled JSUndefined \<longleftrightarrow>
      (\<forall>i < length (threads p).
         is_fulfilled (member_future PoolSettledCall
           (calls (threads ps ! i) ! length (calls (threads p ! i)))))"
    unfolding s k
    by (rule pool_future_later) (simp_all add: pool_settled_def)
  then have 2: "pool_future ps k = Fulfilled JSUndefined \<longleftrightarrow>
        (\<forall>i < length (threads p).
           is_fulfilled (awaited (calls (threads ps ! i) ! length (calls (threads p ! i)))))"
    by (simp add: member_future_def)
  have m: "\<And>i. i < length (threads p) \<Longrightarrow>
      is_fulfilled (awaited (calls (threads ps ! i) ! length (calls (threads p ! i)))) \<longleftrightarrow>
      (\<forall>a \<in> snd ` set (tasks (threads p ! i)).
         is_settled (pstate (promises (threads ps ! i) ! a)))"
  proof -
    fix i assume i: "i < length (threads p)"
    from member_settled_later [OF reach i ts, of pacts']
    have "awaited (calls (threads ps ! i) ! length (calls (threads p ! i))) =
      (if \<forall>a \<in> snd ` set (tasks (threads p ! i)).
            is_settled (pstate (promises (threads ps ! i) ! a))
       then Fulfilled JSUndefined else Pending)"
      by (simp add: s)
    then show "is_fulfilled (awaited (calls (threads ps ! i) ! length (calls (threads p ! i)))) \<longleftrightarrow>
      (\<forall>a \<in> snd ` set (tasks (threads p ! i)).
         is_settled (pstate (promises (threads ps ! i) ! a)))"
      by (simp split: if_splits)
  qed
  from 2 m have 3: "pool_future ps k = Fulfilled JSUndefined \<longleftrightarrow>
        (\<forall>i < length (threads p). \<forall>a \<in> snd ` set (tasks (threads p ! i)).
           is_settled (pstate (promises (threads ps ! i) ! a)))"
    by simp
  have 4: "(\<forall>x \<in> set pacts'. \<not> submits x) \<and> pool_future ps k = Fulfilled JSUndefined \<longrightarrow>
        (\<forall>i < length (threads p). numQueuedTasks (threads ps ! i) = 0)"
  proof (intro impI allI)
    fix i
    assume a: "(\<forall>x \<in> set pacts'. \<not> submits x) \<and> pool_future ps k = Fulfilled JSUndefined"
      and i: "i < length (threads p)"
    from member_settled_later [OF reach i ts, of pacts'] a
    have ok: "thread_ok (threads ps ! i)"
      and sub: "set (tasks (threads ps ! i)) \<subseteq> set (tasks (threads p ! i))"
      by (simp_all add: s)
    from a 3 i have "\<forall>a \<in> snd ` set (tasks (threads p ! i)).
        is_settled (pstate (promises (threads ps ! i) ! a))"
      by blast
    from quiet_drained_is_idle [OF ok sub this]
    show "numQueuedTasks (threads ps ! i) = 0" .
  qed
  have 6: "\<forall>i < length (threads p).
        (resumed (calls (threads pt ! i) ! length (calls (threads p ! i))) \<longrightarrow>
           (\<forall>a \<in> snd ` set (tasks (threads p ! i)).
              is_settled (pstate (promises (threads pt ! i) ! a)))) \<and>
        (channel_closed (worker (threads pt ! i)) \<longrightarrow>
           (\<exists>j < length (calls (threads pt ! i)). resumed (calls (threads pt ! i) ! j) \<and>
              (\<forall>a \<in> set (snapshot (calls (threads pt ! i) ! j)).
                 is_settled (pstate (promises (threads pt ! i) ! a)))))"
  proof (intro allI impI)
    fix i assume i: "i < length (threads p)"
    from member_settled_later [OF reach i tt, of pacts']
    have ok: "thread_ok (threads pt ! i)"
      and r: "resumed (calls (threads pt ! i) ! length (calls (threads p ! i))) \<longrightarrow>
           (\<forall>a \<in> snd ` set (tasks (threads p ! i)).
              is_settled (pstate (promises (threads pt ! i) ! a)))"
      by (simp_all add: t)
    have c: "channel_closed (worker (threads pt ! i)) \<longrightarrow>
           (\<exists>j < length (calls (threads pt ! i)). resumed (calls (threads pt ! i) ! j) \<and>
              (\<forall>a \<in> set (snapshot (calls (threads pt ! i) ! j)).
                 is_settled (pstate (promises (threads pt ! i) ! a))))"
      using channel_touched_resumed [OF ok] by blast
    from r c
    show "(resumed (calls (threads pt ! i) ! length (calls (threads p ! i))) \<longrightarrow>
           (\<forall>a \<in> snd ` set (tasks (threads p ! i)).
              is_settled (pstate (promises (threads pt ! i) ! a)))) \<and>
        (channel_closed (worker (threads pt ! i)) \<longrightarrow>
           (\<exists>j < length (calls (threads pt ! i)). resumed (calls (threads pt ! i) ! j) \<and>
              (\<forall>a \<in> set (snapshot (calls (threads pt ! i) ! j)).
                 is_settled (pstate (promises (threads pt ! i) ! a)))))"
      by (rule conjI)
  qed
  show ?thesis
    by (intro conjI) (rule 1 2 3 4 5 6)+
qed

theorem pool_drains_members_witness:
  "\<exists>p ps pt.
     pool_after [(Worker, None, [Init [''takesTime'']]), (SharedWorker, None, [Init [''takesTime'']])]
       [Queue [Invoke ''takesTime'' ''a'' [JSNumber 250]],
        Queue [Invoke ''takesTime'' ''b'' [JSNumber 250]]] = Some p \<and>
     0 = length (pool_calls p) \<and>
     ps = pool_run (pool_settled p)
       [OnThread 0 (Deliver (TaskResult ''a'' (JSString ''Hello World!''))),
        OnThread 1 (Deliver (TaskResult ''b'' (JSString ''Hello World!'')))] \<and>
     pt = pool_run (pool_terminate p)
       [OnThread 0 (Deliver (TaskResult ''a'' (JSString ''Hello World!''))),
        OnThread 0 (ResumeTerminate 0)] \<and>
     numQueuedTasks (threads p ! 0) = 1 \<and> numQueuedTasks (threads p ! 1) = 1 \<and>
     pool_future ps 0 = Fulfilled JSUndefined \<and>
     numQueuedTasks (threads ps ! 0) = 0 \<and> numQueuedTasks (threads ps ! 1) = 0 \<and>
     resumed (calls (threads pt ! 0) ! 0) \<and>
     is_settled (pstate (promises (threads pt ! 0) ! 0))"
proof -
  let ?d = "[OnThread 0 (Deliver (TaskResult ''a'' (JSString ''Hello World!''))),
        OnThread 1 (Deliver (TaskResult ''b'' (JSString ''Hello World!'')))]"
  let ?r = "[OnThread 0 (Deliver (TaskResult ''a'' (JSString ''Hello World!''))),
        OnThread 0 (ResumeTerminate 0)]"
  obtain p where p: "pool_after [(Worker, None, [Init [''takesTime'']]), (SharedWorker, None, [Init [''takesTime'']])]
       [Queue [Invoke ''takesTime'' ''a'' [JSNumber 250]],
        Queue [Invoke ''takesTime'' ''b'' [JSNumber 250]]] = Some p"
    by (simp add: pool_defs model_defs)
  define ps where "ps = pool_run (pool_settled p) ?d"
  define pt where "pt = pool_run (pool_terminate p) ?r"
  define pt' where "pt' = pool_run (pool_terminate p) ?d"
  define ps' where "ps' = pool_run (pool_settled p) ?r"
  from p have k: "0 = length (pool_calls p)" and n: "length (threads p) = 2"
    and c: "numQueuedTasks (threads p ! 0) = 1" "numQueuedTasks (threads p ! 1) = 1"
    and l: "length (calls (threads p ! 0)) = 0"
    and s: "snd ` set (tasks (threads p ! 0)) = {0}"
    by (auto simp: pool_defs model_defs)
  from p have f: "pool_future ps 0 = Fulfilled JSUndefined"
    by (auto simp: ps_def pool_defs model_defs)
  from p have r: "resumed (calls (threads pt ! 0) ! 0)"
    by (auto simp: pt_def pool_defs model_defs)
  have q: "\<forall>x \<in> set ?d. \<not> submits x"
    by (simp add: is_Invoke_def)
  note t1 = pool_drains_members [OF p k ps_def pt'_def]
  from t1 [THEN conjunct2, THEN conjunct2, THEN conjunct2, THEN conjunct1, rule_format,
      OF conjI [OF q f]] n
  have z: "numQueuedTasks (threads ps ! 0) = 0" "numQueuedTasks (threads ps ! 1) = 0"
    by simp_all
  note t2 = pool_drains_members [OF p k ps'_def pt_def]
  from t2 [THEN conjunct2, THEN conjunct2, THEN conjunct2, THEN conjunct2, THEN conjunct2,
      rule_format, of 0] n
  have "resumed (calls (threads pt ! 0) ! length (calls (threads p ! 0))) \<longrightarrow>
      (\<forall>a \<in> snd ` set (tasks (threads p ! 0)). is_settled (pstate (promises (threads pt ! 0) ! a)))"
    by simp
  with r l s have e: "is_settled (pstate (promises (threads pt ! 0) ! 0))"
    by simp
  show ?thesis
    by (intro exI [of _ p] exI [of _ ps] exI [of _ pt] conjI)
      (rule p k ps_def pt_def c f z r e)+
qed

text \<open>
  C8 as stated fails twice. In a pool of one thread, a task is queued, pool.settled() is
  called, a second task is queued and then the first result arrives: the future of
  pool.settled() is fulfilled although the member's pending count is 1, and the count
  was 1, 2 and 1 after the call, never 0. In a pool of two threads with one task each,
  the first result arrives, pool.terminate() is called and the first member's terminate
  continues: its channel is closed while the second member's task, pending at the call,
  is still pending.
\<close>

theorem pool_drain_counterexample:
  "pool_future (the (pool_after [(Worker, None, [Init [''f'']])] late_submission)) 0 =
     Fulfilled JSUndefined \<and>
   pool_future (the (pool_after [(Worker, None, [Init [''f'']])] (take 3 late_submission))) 0 =
     Pending \<and>
   numQueuedTasks (threads (the (pool_after [(Worker, None, [Init [''f'']])]
     (take 2 late_submission))) ! 0) = 1 \<and>
   numQueuedTasks (threads (the (pool_after [(Worker, None, [Init [''f'']])]
     (take 3 late_submission))) ! 0) = 2 \<and>
   numQueuedTasks (threads (the (pool_after [(Worker, None, [Init [''f'']])]
     late_submission)) ! 0) = 1 \<and>
   numQueuedTasks (threads (the (pool_after
     [(Worker, None, [Init [''f'']]), (Worker, None, [Init [''f'']])]
     (take 3 idle_member_first))) ! 1) = 1 \<and>
   channel_closed (worker (threads (the (pool_after
     [(Worker, None, [Init [''f'']]), (Worker, None, [Init [''f'']])]
     idle_member_first)) ! 0)) \<and>
   numQueuedTasks (threads (the (pool_after
     [(Worker, None, [Init [''f'']]), (Worker, None, [Init [''f'']])]
     idle_member_first)) ! 1) = 1 \<and>
   pstate (promises (threads (the (pool_after
     [(Worker, None, [Init [''f'']]), (Worker, None, [Init [''f'']])]
     idle_member_first)) ! 1) ! 0) = Pending"
  by (simp add: late_submission_def idle_member_first_def pool_defs model_defs)

end
